theory Spec2Isabelle
  imports Main "HOL-Library.Char_ord" "HOL-Library.List_Lexorder"
begin

section \<open>Data model of \<^verbatim>\<open>aurman/classes.py\<close>\<close>

text \<open>
  The enum \<^verbatim>\<open>PossibleTypes\<close> and the class \<^verbatim>\<open>Package\<close>. The fields that
  \<^verbatim>\<open>relevant_deps\<close> and \<^verbatim>\<open>hypothetical_append_packages_to_system\<close> test against
  \<^verbatim>\<open>None\<close> are options; \<^verbatim>\<open>conflicts\<close>, \<^verbatim>\<open>provides\<close> and \<^verbatim>\<open>type_of\<close> are always
  supplied by the two loaders (\<^verbatim>\<open>get_packages_from_aur\<close>, \<^verbatim>\<open>get_packages_from_expac\<close>)
  and are iterated without a test, so they are plain values here.
\<close>

datatype PossibleTypes =
  REPO_PACKAGE | AUR_PACKAGE | DEVEL_PACKAGE | PACKAGE_NOT_REPO_NOT_AUR

record package =
  name :: string
  version :: string
  depends :: "string list option"
  conflicts :: "string list"
  required_by :: "string list option"
  provides :: "string list"
  makedepends :: "string list option"
  checkdepends :: "string list option"
  type_of :: PossibleTypes

text \<open>The exceptions the modelled code raises: \<^verbatim>\<open>InvalidInput\<close> with its message, the
  \<^verbatim>\<open>KeyError\<close> of a \<^verbatim>\<open>del\<close> on a missing key, and the \<^verbatim>\<open>EOFError\<close> of \<^verbatim>\<open>input()\<close>
  at the end of the input.\<close>

datatype error = InvalidInput string | KeyError string | EOFError

text \<open>\<^verbatim>\<open>Package.__eq__\<close>: name and version decide; \<^verbatim>\<open>x in xs\<close> and
  \<^verbatim>\<open>xs.index(x)\<close> on lists of packages go through it.\<close>

definition pkg_eq :: "package \<Rightarrow> package \<Rightarrow> bool" where
  "pkg_eq p q = (name p = name q \<and> version p = version q)"

definition pkg_in :: "package \<Rightarrow> package list \<Rightarrow> bool" where
  "pkg_in p xs = list_ex (pkg_eq p) xs"

fun pkg_index :: "package \<Rightarrow> package list \<Rightarrow> nat" where
  "pkg_index p [] = 0"
| "pkg_index p (x # xs) = (if pkg_eq x p then 0 else Suc (pkg_index p xs))"

text \<open>\<^verbatim>\<open>set(xs)\<close> and \<^verbatim>\<open>s.add(x)\<close> on packages: one representative per
  (name, version), kept in first-insertion order.\<close>

definition pkg_set_add :: "package \<Rightarrow> package list \<Rightarrow> package list" where
  "pkg_set_add p xs = (if pkg_in p xs then xs else xs @ [p])"

definition pkg_set :: "package list \<Rightarrow> package list" where
  "pkg_set xs = foldl (\<lambda>acc p. pkg_set_add p acc) [] xs"

subsection \<open>The helpers of \<^verbatim>\<open>aurman.utilities\<close>\<close>

text \<open>
  Modelled from the spec: \<^verbatim>\<open>split_name_with_versioning\<close> and
  \<^verbatim>\<open>strip_versioning_from_name\<close> live in \<^verbatim>\<open>aurman/utilities.py\<close>, which is not among
  the sources. The spec (4.1): \<^verbatim>\<open>parse_atom\<close> splits on the first occurrence of any of
  \<^verbatim>\<open>>=, <=, ==, =, >, <\<close> (longest match wins), an absent operator gives two empty
  strings, and \<^verbatim>\<open>strip\<close> returns only the name portion.
  \<^verbatim>\<open>version_comparison\<close> is missing as well; every function that calls it takes it as
  its first parameter \<open>vc\<close>.
\<close>

type_synonym vercmp = "string \<Rightarrow> string \<Rightarrow> string \<Rightarrow> bool"

definition is_op_char :: "char \<Rightarrow> bool" where
  "is_op_char c = (c = CHR ''<'' \<or> c = CHR ''>'' \<or> c = CHR ''='')"

fun split_name_with_versioning :: "string \<Rightarrow> string \<times> string \<times> string" where
  "split_name_with_versioning [] = ([], [], [])"
| "split_name_with_versioning (c # cs) =
     (if is_op_char c then
        (case cs of
           [] \<Rightarrow> ([], [c], [])
         | d # ds \<Rightarrow> if d = CHR ''='' then ([], [c, d], ds) else ([], [c], cs))
      else (case split_name_with_versioning cs of (n, cmp, v) \<Rightarrow> (c # n, cmp, v)))"

definition strip_versioning_from_name :: "string \<Rightarrow> string" where
  "strip_versioning_from_name s = fst (split_name_with_versioning s)"

subsection \<open>\<^verbatim>\<open>Package.relevant_deps\<close>\<close>

definition extend_opt :: "'a list \<Rightarrow> 'a list option \<Rightarrow> 'a list" where
  "extend_opt acc xs = (case xs of None \<Rightarrow> acc | Some ys \<Rightarrow> acc @ ys)"

definition relevant_deps :: "package \<Rightarrow> string list" where
  "relevant_deps self =
     extend_opt (extend_opt (extend_opt [] (depends self)) (makedepends self)) (checkdepends self)"

section \<open>The class \<^verbatim>\<open>System\<close>\<close>

text \<open>
  \<^verbatim>\<open>all_packages_dict\<close> is an insertion-ordered dictionary whose \<^verbatim>\<open>values()\<close> are
  read back in order, so it is an association list; \<^verbatim>\<open>append_packages\<close> refuses a
  second package of a name, which keeps its keys distinct. The two reverse
  dictionaries are only looked up by key and are maps.
\<close>

record system =
  all_packages_dict :: "(string \<times> package) list"
  repo_packages_list :: "package list"
  aur_packages_list :: "package list"
  devel_packages_list :: "package list"
  not_repo_not_aur_packages_list :: "package list"
  provides_dict :: "string \<rightharpoonup> package list"
  conflicts_dict :: "string \<rightharpoonup> package list"

definition empty_system :: system where
  "empty_system = \<lparr> all_packages_dict = [], repo_packages_list = [], aur_packages_list = [],
     devel_packages_list = [], not_repo_not_aur_packages_list = [],
     provides_dict = Map.empty, conflicts_dict = Map.empty \<rparr>"

definition dict_values :: "('k \<times> 'v) list \<Rightarrow> 'v list" where
  "dict_values d = map snd d"

definition dict_del :: "'k \<Rightarrow> ('k \<times> 'v) list \<Rightarrow> ('k \<times> 'v) list" where
  "dict_del k d = filter (\<lambda>kv. fst kv \<noteq> k) d"

text \<open>The first loop of \<^verbatim>\<open>append_packages\<close>, one package at a time.\<close>

definition append_package :: "system \<Rightarrow> package \<Rightarrow> error + system" where
  "append_package s p =
     (if map_of (all_packages_dict s) (name p) \<noteq> None
      then Inl (InvalidInput (''Package '' @ name p @ ''-'' @ version p @ '' already known''))
      else
        (let s1 = s\<lparr>all_packages_dict := all_packages_dict s @ [(name p, p)]\<rparr>
         in Inr (case type_of p of
             REPO_PACKAGE \<Rightarrow> s1\<lparr>repo_packages_list := repo_packages_list s1 @ [p]\<rparr>
           | AUR_PACKAGE \<Rightarrow> s1\<lparr>aur_packages_list := aur_packages_list s1 @ [p]\<rparr>
           | DEVEL_PACKAGE \<Rightarrow> s1\<lparr>devel_packages_list := devel_packages_list s1 @ [p]\<rparr>
           | PACKAGE_NOT_REPO_NOT_AUR \<Rightarrow>
               s1\<lparr>not_repo_not_aur_packages_list := not_repo_not_aur_packages_list s1 @ [p]\<rparr>)))"

fun append_each :: "system \<Rightarrow> package list \<Rightarrow> error + system" where
  "append_each s [] = Inr s"
| "append_each s (p # ps) =
     (case append_package s p of Inl e \<Rightarrow> Inl e | Inr s' \<Rightarrow> append_each s' ps)"

text \<open>\<^verbatim>\<open>__append_to_x_dict\<close>: every value of every package is filed under its
  stripped name, a package once per value.\<close>

definition dict_append :: "(string \<rightharpoonup> package list) \<Rightarrow> string \<Rightarrow> package \<Rightarrow> (string \<rightharpoonup> package list)" where
  "dict_append d value_name p =
     (case d value_name of
        Some ps \<Rightarrow> d(value_name \<mapsto> ps @ [p])
      | None \<Rightarrow> d(value_name \<mapsto> [p]))"

definition append_to_x_dict ::
  "(package \<Rightarrow> string list) \<Rightarrow> (string \<rightharpoonup> package list) \<Rightarrow> package list \<Rightarrow> (string \<rightharpoonup> package list)" where
  "append_to_x_dict field d packages =
     foldl (\<lambda>d1 p. foldl (\<lambda>d2 relevant_value.
              dict_append d2 (strip_versioning_from_name relevant_value) p) d1 (field p))
       d packages"

definition append_packages :: "system \<Rightarrow> package list \<Rightarrow> error + system" where
  "append_packages s packages =
     (case append_each s packages of
        Inl e \<Rightarrow> Inl e
      | Inr s1 \<Rightarrow>
          Inr (s1\<lparr> provides_dict := append_to_x_dict provides (provides_dict s1) packages,
                   conflicts_dict := append_to_x_dict conflicts (conflicts_dict s1) packages \<rparr>))"

text \<open>\<^verbatim>\<open>System.__init__\<close>.\<close>

definition System :: "package list \<Rightarrow> error + system" where
  "System packages = append_packages empty_system packages"

subsection \<open>\<^verbatim>\<open>System.provided_by\<close>\<close>

text \<open>The body of the inner loop over \<^verbatim>\<open>package.provides\<close>: there is no
  \<^verbatim>\<open>break\<close> after an append.\<close>

definition provided_by_provide ::
  "vercmp \<Rightarrow> string \<Rightarrow> string \<Rightarrow> string \<Rightarrow> package \<Rightarrow> package list \<Rightarrow> string \<Rightarrow> package list" where
  "provided_by_provide vc dep_name dep_cmp dep_version p return_list provide =
     (case split_name_with_versioning provide of (provide_name, provide_cmp, provide_version) \<Rightarrow>
        if provide_name \<noteq> dep_name then return_list
        else if dep_cmp = [] then return_list @ [p]
        else if (provide_cmp = ''='' \<or> provide_cmp = ''=='') \<and> vc provide_version dep_cmp dep_version
          then return_list @ [p]
        else if provide_cmp = [] \<and> vc (version p) dep_cmp dep_version then return_list @ [p]
        else return_list)"

text \<open>The body of the loop over \<^verbatim>\<open>possible_packages\<close>.\<close>

definition provided_by_package ::
  "vercmp \<Rightarrow> string \<Rightarrow> string \<Rightarrow> string \<Rightarrow> package list \<Rightarrow> package \<Rightarrow> package list" where
  "provided_by_package vc dep_name dep_cmp dep_version return_list p =
     (if pkg_in p return_list then return_list
      else foldl (provided_by_provide vc dep_name dep_cmp dep_version p) return_list (provides p))"

definition provided_by :: "vercmp \<Rightarrow> system \<Rightarrow> string \<Rightarrow> package list" where
  "provided_by vc s dep =
     (case split_name_with_versioning dep of (dep_name, dep_cmp, dep_version) \<Rightarrow>
        (let return_list =
               (case map_of (all_packages_dict s) dep_name of
                  None \<Rightarrow> []
                | Some p \<Rightarrow>
                    if dep_cmp = [] then [p]
                    else if vc (version p) dep_cmp dep_version then [p]
                    else [])
         in case provides_dict s dep_name of
              None \<Rightarrow> return_list
            | Some possible_packages \<Rightarrow>
                foldl (provided_by_package vc dep_name dep_cmp dep_version) return_list
                  possible_packages))"

subsection \<open>\<^verbatim>\<open>System.conflicting_with\<close>\<close>

definition conflicting_with_own ::
  "vercmp \<Rightarrow> system \<Rightarrow> package list \<Rightarrow> string \<Rightarrow> package list" where
  "conflicting_with_own vc s return_list conflict =
     (case split_name_with_versioning conflict of (conflict_name, conflict_cmp, conflict_version) \<Rightarrow>
        (case map_of (all_packages_dict s) conflict_name of
           None \<Rightarrow> return_list
         | Some possible_conflict_package \<Rightarrow>
             if pkg_in possible_conflict_package return_list then return_list
             else if conflict_cmp = [] then return_list @ [possible_conflict_package]
             else if vc (version possible_conflict_package) conflict_cmp conflict_version
               then return_list @ [possible_conflict_package]
             else return_list))"

definition conflicting_with_theirs ::
  "vercmp \<Rightarrow> string \<Rightarrow> string \<Rightarrow> package \<Rightarrow> package list \<Rightarrow> string \<Rightarrow> package list" where
  "conflicting_with_theirs vc nm ver q return_list conflict =
     (case split_name_with_versioning conflict of (conflict_name, conflict_cmp, conflict_version) \<Rightarrow>
        if conflict_name \<noteq> nm then return_list
        else if conflict_cmp = [] then return_list @ [q]
        else if vc ver conflict_cmp conflict_version then return_list @ [q]
        else return_list)"

definition conflicting_with_package ::
  "vercmp \<Rightarrow> string \<Rightarrow> string \<Rightarrow> package list \<Rightarrow> package \<Rightarrow> package list" where
  "conflicting_with_package vc nm ver return_list q =
     (if pkg_in q return_list then return_list
      else foldl (conflicting_with_theirs vc nm ver q) return_list (conflicts q))"

definition conflicting_with :: "vercmp \<Rightarrow> system \<Rightarrow> package \<Rightarrow> package list" where
  "conflicting_with vc s p =
     (let return_list0 =
            (case map_of (all_packages_dict s) (name p) of
               None \<Rightarrow> []
             | Some possible_conflict_package \<Rightarrow>
                 if version p \<noteq> version possible_conflict_package
                 then [possible_conflict_package] else []);
          return_list1 = foldl (conflicting_with_own vc s) return_list0 (conflicts p)
      in case conflicts_dict s (name p) of
           None \<Rightarrow> return_list1
         | Some possible_conflict_packages \<Rightarrow>
             foldl (conflicting_with_package vc (name p) (version p)) return_list1
               possible_conflict_packages)"

subsection \<open>\<^verbatim>\<open>System.are_all_deps_fulfilled\<close>\<close>

definition are_all_deps_fulfilled :: "vercmp \<Rightarrow> system \<Rightarrow> package \<Rightarrow> bool" where
  "are_all_deps_fulfilled vc s p = list_all (\<lambda>dep. provided_by vc s dep \<noteq> []) (relevant_deps p)"

section \<open>The dependency solver\<close>

text \<open>The classes \<^verbatim>\<open>DepAlgoSolution\<close> and \<^verbatim>\<open>DepAlgoFoundProblems\<close> with its three
  subclasses. A \<^verbatim>\<open>conflicting_packages\<close> set is kept as the list of its members.\<close>

record DepAlgoSolution =
  packages_in_solution :: "package list"
  visited_packages :: "package list"
  visited_names :: "string set"
  is_valid :: bool

datatype DepAlgoFoundProblems =
    DepAlgoCycle (cycle_packages: "package list")
  | DepAlgoConflict (conflicting_packages: "package list") (way_to_conflict: "package list")
  | DepAlgoNotProvided (dep_not_provided: string) (package: package)

fun get_relevant_packages :: "DepAlgoFoundProblems \<Rightarrow> package list" where
  "get_relevant_packages (DepAlgoCycle cyc) = cyc"
| "get_relevant_packages (DepAlgoConflict cs way) = cs"
| "get_relevant_packages (DepAlgoNotProvided dep p) = [p]"

text \<open>The \<^verbatim>\<open>__eq__\<close> methods of the problem classes: tuples and frozensets of
  packages, compared with \<^verbatim>\<open>Package.__eq__\<close>.\<close>

fun problem_eq :: "DepAlgoFoundProblems \<Rightarrow> DepAlgoFoundProblems \<Rightarrow> bool" where
  "problem_eq (DepAlgoCycle a) (DepAlgoCycle b) = list_all2 pkg_eq a b"
| "problem_eq (DepAlgoConflict c1 w1) (DepAlgoConflict c2 w2) =
     (list_all (\<lambda>x. pkg_in x c2) c1 \<and> list_all (\<lambda>x. pkg_in x c1) c2 \<and> list_all2 pkg_eq w1 w2)"
| "problem_eq (DepAlgoNotProvided d1 p1) (DepAlgoNotProvided d2 p2) = (d1 = d2 \<and> pkg_eq p1 p2)"
| "problem_eq _ _ = False"

text \<open>\<^verbatim>\<open>found_problems\<close> is a set under that equality: \<^verbatim>\<open>add\<close> keeps the element
  already there.\<close>

definition problems_add ::
  "DepAlgoFoundProblems \<Rightarrow> DepAlgoFoundProblems list \<Rightarrow> DepAlgoFoundProblems list" where
  "problems_add prob found = (if list_ex (problem_eq prob) found then found else found @ [prob])"

text \<open>What a call does: it runs out of fuel (the recursion of
  \<^verbatim>\<open>solutions_for_dep_problem\<close> is bounded by a counter here), raises, or returns.\<close>

datatype 'a outcome = OutOfFuel | Raised error | Returned 'a

fun ofold :: "('a \<Rightarrow> 's \<Rightarrow> 's outcome) \<Rightarrow> 'a list \<Rightarrow> 's \<Rightarrow> 's outcome" where
  "ofold f [] s = Returned s"
| "ofold f (x # xs) s =
     (case f x s of
        OutOfFuel \<Rightarrow> OutOfFuel
      | Raised e \<Rightarrow> Raised e
      | Returned s' \<Rightarrow> ofold f xs s')"

type_synonym search_state = "DepAlgoSolution list \<times> DepAlgoFoundProblems list"

type_synonym solver =
  "package \<Rightarrow> DepAlgoSolution \<Rightarrow> DepAlgoFoundProblems list \<Rightarrow> search_state outcome"

definition min_list :: "nat list \<Rightarrow> nat" where
  "min_list xs = foldl min (hd xs) (tl xs)"

text \<open>Lines 331 to 335: the conflict record for the packages \<open>conflict_system\<close>
  found to conflict with \<open>self\<close>.\<close>

definition new_conflict :: "package \<Rightarrow> DepAlgoSolution \<Rightarrow> package list \<Rightarrow> DepAlgoFoundProblems" where
  "new_conflict self solution conflict_system =
     (let min_index = min_list (map (\<lambda>p. pkg_index p (visited_packages solution)) conflict_system);
          way = drop min_index (visited_packages solution) @ [self]
      in DepAlgoConflict (pkg_set_add self (pkg_set conflict_system)) way)"

text \<open>Lines 329 to 336: the conflict is recorded only for a solution that is still
  valid.\<close>

definition record_conflict ::
  "package \<Rightarrow> DepAlgoSolution \<Rightarrow> package list \<Rightarrow> DepAlgoFoundProblems list \<Rightarrow> DepAlgoFoundProblems list" where
  "record_conflict self solution conflict_system found =
     (if conflict_system \<noteq> [] \<and> is_valid solution
      then problems_add (new_conflict self solution conflict_system) found
      else found)"

text \<open>Lines 342 to 345: the copy of the solution that the expansion works on.\<close>

definition visit :: "package \<Rightarrow> DepAlgoSolution \<Rightarrow> package list \<Rightarrow> DepAlgoSolution" where
  "visit self solution conflict_system =
     solution\<lparr>visited_packages := visited_packages solution @ [self],
              is_valid := (if conflict_system \<noteq> [] then False else is_valid solution)\<rparr>"

text \<open>Lines 317 to 321.\<close>

definition record_cycle ::
  "package \<Rightarrow> DepAlgoSolution \<Rightarrow> DepAlgoFoundProblems list \<Rightarrow> DepAlgoFoundProblems list" where
  "record_cycle self solution found =
     (if is_valid solution then
        (let index_of_self = pkg_index self (visited_packages solution);
             new_dep_cycle = DepAlgoCycle (drop index_of_self (visited_packages solution) @ [self])
         in problems_add new_dep_cycle found)
      else found)"

text \<open>Lines 362 to 365.\<close>

definition mark_not_provided :: "string \<Rightarrow> DepAlgoSolution \<Rightarrow> DepAlgoSolution" where
  "mark_not_provided dep solution =
     (if dep \<notin> visited_names solution
      then solution\<lparr>is_valid := False, visited_names := insert dep (visited_names solution)\<rparr>
      else solution)"

text \<open>Lines 368 and 369: only the provider of the dep's own name, unless the dep is to
  be deep checked.\<close>

definition relevant_providers :: "string set \<Rightarrow> string \<Rightarrow> package list \<Rightarrow> package list" where
  "relevant_providers deps_to_deep_check dep dep_providers =
     (if strip_versioning_from_name dep \<in> set (map name dep_providers) \<and> dep \<notin> deps_to_deep_check
      then filter (\<lambda>p. name p = strip_versioning_from_name dep) dep_providers
      else dep_providers)"

text \<open>Lines 376 to 384: the state is the pair of \<^verbatim>\<open>finished_solutions\<close> and
  \<^verbatim>\<open>new_not_finished_solutions\<close>.\<close>

fun check_in_solution ::
  "vercmp \<Rightarrow> string \<Rightarrow> DepAlgoSolution list \<Rightarrow> DepAlgoSolution list \<times> DepAlgoSolution list
     \<Rightarrow> error + (DepAlgoSolution list \<times> DepAlgoSolution list)" where
  "check_in_solution vc dep [] acc = Inr acc"
| "check_in_solution vc dep (solution # rest) (finished, new_not_finished) =
     (let solution1 = solution\<lparr>visited_names := insert dep (visited_names solution)\<rparr>
      in case System (packages_in_solution solution1) of
           Inl e \<Rightarrow> Inl e
         | Inr sol_system \<Rightarrow>
             if provided_by vc sol_system dep \<noteq> []
             then check_in_solution vc dep rest (finished @ [solution1], new_not_finished)
             else check_in_solution vc dep rest (finished, new_not_finished @ [solution1]))"

text \<open>Lines 390 to 393: one recursive call, its solutions appended to
  \<^verbatim>\<open>current_solutions\<close>, the problems threaded through.\<close>

definition expand_one :: "solver \<Rightarrow> DepAlgoSolution \<Rightarrow> package \<Rightarrow> search_state \<Rightarrow> search_state outcome" where
  "expand_one rec solution dep_provider st =
     (case rec dep_provider solution (snd st) of
        OutOfFuel \<Rightarrow> OutOfFuel
      | Raised e \<Rightarrow> Raised e
      | Returned r \<Rightarrow> Returned (fst st @ fst r, snd r))"

text \<open>The body of the loop over \<^verbatim>\<open>self.relevant_deps()\<close>, lines 350 to 393.\<close>

definition dep_step ::
  "solver \<Rightarrow> vercmp \<Rightarrow> system \<Rightarrow> system \<Rightarrow> bool \<Rightarrow> string set \<Rightarrow> package \<Rightarrow> string
     \<Rightarrow> search_state \<Rightarrow> search_state outcome" where
  "dep_step rec vc installed_system upstream_system only_unfulfilled_deps deps_to_deep_check self dep st =
     (if only_unfulfilled_deps \<and> provided_by vc installed_system dep \<noteq> [] then Returned st
      else
        (let dep_providers = provided_by vc upstream_system dep;
             found1 = (if dep_providers = []
                       then problems_add (DepAlgoNotProvided dep self) (snd st) else snd st);
             current1 = (if dep_providers = []
                         then map (mark_not_provided dep) (fst st) else fst st);
             dep_providers1 = relevant_providers deps_to_deep_check dep dep_providers;
             finished = filter (\<lambda>s. dep \<in> visited_names s) current1;
             not_finished = filter (\<lambda>s. dep \<notin> visited_names s) current1
         in case check_in_solution vc dep not_finished (finished, []) of
              Inl e \<Rightarrow> Raised e
            | Inr (finished1, not_finished1) \<Rightarrow>
                ofold (\<lambda>solution. ofold (expand_one rec solution) dep_providers1)
                  not_finished1 (finished1, found1)))"

text \<open>Lines 395 to 405.\<close>

definition finish_expansion :: "package \<Rightarrow> search_state \<Rightarrow> search_state" where
  "finish_expansion self st =
     (map (\<lambda>s. s\<lparr>packages_in_solution := packages_in_solution s @ [self]\<rparr>) (fst st),
      if filter is_valid (fst st) \<noteq> [] then [] else snd st)"

text \<open>The body of \<^verbatim>\<open>Package.solutions_for_dep_problem\<close>, with \<open>rec\<close> for its
  recursive calls.\<close>

definition expand_body ::
  "solver \<Rightarrow> vercmp \<Rightarrow> system \<Rightarrow> system \<Rightarrow> bool \<Rightarrow> string set \<Rightarrow> solver" where
  "expand_body rec vc installed_system upstream_system only_unfulfilled_deps deps_to_deep_check
       self solution found =
     (if pkg_in self (packages_in_solution solution) then Returned ([solution], found)
      else if pkg_in self (visited_packages solution) \<and> type_of self \<noteq> REPO_PACKAGE
        then Returned ([], record_cycle self solution found)
      else if pkg_in self (visited_packages solution) then Returned ([solution], found)
      else
        (case System (visited_packages solution) of
           Inl e \<Rightarrow> Raised e
         | Inr conflict_sys \<Rightarrow>
             (let conflict_system = conflicting_with vc conflict_sys self
              in case ofold (dep_step rec vc installed_system upstream_system only_unfulfilled_deps
                              deps_to_deep_check self)
                        (relevant_deps self)
                        ([visit self solution conflict_system],
                         record_conflict self solution conflict_system found) of
                   OutOfFuel \<Rightarrow> OutOfFuel
                 | Raised e \<Rightarrow> Raised e
                 | Returned st \<Rightarrow> Returned (finish_expansion self st))))"

text \<open>\<^verbatim>\<open>Package.solutions_for_dep_problem\<close>. The first argument bounds the depth of
  the recursion; the Python has no such bound.\<close>

primrec solutions_for_dep_problem ::
  "nat \<Rightarrow> vercmp \<Rightarrow> system \<Rightarrow> system \<Rightarrow> bool \<Rightarrow> string set \<Rightarrow> solver" where
  "solutions_for_dep_problem 0 vc installed_system upstream_system only_unfulfilled_deps
       deps_to_deep_check = (\<lambda>self solution found. OutOfFuel)"
| "solutions_for_dep_problem (Suc n) vc installed_system upstream_system only_unfulfilled_deps
       deps_to_deep_check =
     expand_body
       (solutions_for_dep_problem n vc installed_system upstream_system only_unfulfilled_deps
          deps_to_deep_check)
       vc installed_system upstream_system only_unfulfilled_deps deps_to_deep_check"

subsection \<open>\<^verbatim>\<open>Package.dep_solving\<close>\<close>

definition empty_solution :: DepAlgoSolution where
  "empty_solution = \<lparr> packages_in_solution = [], visited_packages = [], visited_names = {},
     is_valid = True \<rparr>"

text \<open>Lines 427 to 433: one pass over the requested packages.\<close>

definition solve_package :: "solver \<Rightarrow> package \<Rightarrow> search_state \<Rightarrow> search_state outcome" where
  "solve_package rec p st =
     ofold (\<lambda>solution. expand_one rec solution p) (fst st) ([], snd st)"

definition solve_pass :: "solver \<Rightarrow> package list \<Rightarrow> search_state outcome" where
  "solve_pass rec packages = ofold (solve_package rec) packages ([empty_solution], [])"

text \<open>Lines 443 to 445.\<close>

definition problem_names :: "DepAlgoFoundProblems list \<Rightarrow> string set" where
  "problem_names found = (\<Union>problem \<in> set found. set (map name (get_relevant_packages problem)))"

text \<open>The \<^verbatim>\<open>while True\<close> loop of lines 425 to 452. Its first argument bounds the
  number of passes, its second the recursion depth of every expansion; the state it
  returns is the pair of \<^verbatim>\<open>current_solutions\<close> and \<^verbatim>\<open>found_problems\<close> at the
  \<^verbatim>\<open>break\<close>.\<close>

primrec dep_solving_loop ::
  "nat \<Rightarrow> nat \<Rightarrow> vercmp \<Rightarrow> package list \<Rightarrow> system \<Rightarrow> system \<Rightarrow> bool \<Rightarrow> string set
     \<Rightarrow> search_state outcome" where
  "dep_solving_loop 0 n vc packages installed_system upstream_system only_unfulfilled_deps
       deps_to_deep_check = OutOfFuel"
| "dep_solving_loop (Suc k) n vc packages installed_system upstream_system only_unfulfilled_deps
       deps_to_deep_check =
     (case solve_pass (solutions_for_dep_problem n vc installed_system upstream_system
                         only_unfulfilled_deps deps_to_deep_check) packages of
        OutOfFuel \<Rightarrow> OutOfFuel
      | Raised e \<Rightarrow> Raised e
      | Returned st \<Rightarrow>
          (let current_solutions = filter is_valid (fst st);
               deps_to_deep_check1 = deps_to_deep_check \<union> problem_names (snd st)
           in if current_solutions \<noteq> [] then Returned (current_solutions, snd st)
              else if card deps_to_deep_check1 = card deps_to_deep_check then Returned ([], snd st)
              else dep_solving_loop k n vc packages installed_system upstream_system
                     only_unfulfilled_deps deps_to_deep_check1))"

text \<open>\<^verbatim>\<open>Package.dep_solving\<close>: the plans it returns, and the problems it prints for
  the user (lines 455 to 457), which are none unless no solution is left.\<close>

definition dep_solving ::
  "nat \<Rightarrow> nat \<Rightarrow> vercmp \<Rightarrow> package list \<Rightarrow> system \<Rightarrow> system \<Rightarrow> bool
     \<Rightarrow> (package list list \<times> DepAlgoFoundProblems list) outcome" where
  "dep_solving k n vc packages installed_system upstream_system only_unfulfilled_deps =
     (case dep_solving_loop k n vc packages installed_system upstream_system
             only_unfulfilled_deps {} of
        OutOfFuel \<Rightarrow> OutOfFuel
      | Raised e \<Rightarrow> Raised e
      | Returned st \<Rightarrow>
          Returned (map packages_in_solution (fst st),
                    if snd st \<noteq> [] \<and> fst st = [] then snd st else []))"

text \<open>The list that lines 318 to 320 build when a package \<open>p\<close> that is not a
  repository package is met again in \<^verbatim>\<open>visited_packages\<close>.\<close>

definition revisit_cycle :: "package list \<Rightarrow> bool" where
  "revisit_cycle c = (\<exists>p v. pkg_in p v \<and> type_of p \<noteq> REPO_PACKAGE \<and> c = drop (pkg_index p v) v @ [p])"

text \<open>The packages a system holds in \<^verbatim>\<open>all_packages_dict\<close> and in the lists of
  \<^verbatim>\<open>provides_dict\<close>: every provider of a dep is one of them.\<close>

definition system_packages :: "system \<Rightarrow> package set" where
  "system_packages s =
     set (dict_values (all_packages_dict s)) \<union> (\<Union>ps \<in> ran (provides_dict s). set ps)"

text \<open>The identity of a package under \<^verbatim>\<open>__eq__\<close> and \<^verbatim>\<open>__hash__\<close>.\<close>

definition pkg_key :: "package \<Rightarrow> string \<times> string" where
  "pkg_key p = (name p, version p)"

text \<open>The upstream packages not yet visited, counted by (name, version).\<close>

definition unvisited :: "system \<Rightarrow> DepAlgoSolution \<Rightarrow> nat" where
  "unvisited up sol = card (pkg_key ` system_packages up - pkg_key ` set (visited_packages sol))"

section \<open>Hypothetical installation\<close>

text \<open>\<^verbatim>\<open>del d[k]\<close> raises \<^verbatim>\<open>KeyError\<close> when the key is missing.\<close>

definition del_key :: "string \<Rightarrow> (string \<times> package) list \<Rightarrow> error + (string \<times> package) list" where
  "del_key k d = (if map_of d k = None then Inl (KeyError k) else Inr (dict_del k d))"

fun del_packages :: "package list \<Rightarrow> (string \<times> package) list \<Rightarrow> error + (string \<times> package) list" where
  "del_packages [] d = Inr d"
| "del_packages (p # ps) d =
     (case del_key (name p) d of Inl e \<Rightarrow> Inl e | Inr d' \<Rightarrow> del_packages ps d')"

text \<open>Lines 964 to 968: the state is \<^verbatim>\<open>new_system.all_packages_dict\<close> with
  \<^verbatim>\<open>deleted_packages\<close>.\<close>

definition displace ::
  "(string \<times> package) list \<times> package list \<Rightarrow> package \<Rightarrow> (string \<times> package) list \<times> package list" where
  "displace st p =
     (case map_of (fst st) (name p) of
        None \<Rightarrow> st
      | Some q \<Rightarrow> (dict_del (name p) (fst st), snd st @ [q]))"

text \<open>Lines 984 to 989.\<close>

definition was_required_by :: "system \<Rightarrow> package list \<Rightarrow> package list" where
  "was_required_by s deleted_packages =
     concat (map (\<lambda>deleted_package.
        case required_by deleted_package of
          None \<Rightarrow> []
        | Some rs \<Rightarrow> concat (map (\<lambda>r. case map_of (all_packages_dict s) r of
                                          None \<Rightarrow> [] | Some q \<Rightarrow> [q]) rs))
       deleted_packages)"

text \<open>Lines 992 to 995.\<close>

definition unfulfilled :: "vercmp \<Rightarrow> system \<Rightarrow> package list \<Rightarrow> package list" where
  "unfulfilled vc s was_required_by_packages =
     foldl (\<lambda>to_delete w.
        if \<not> are_all_deps_fulfilled vc s w \<and> \<not> pkg_in w to_delete then to_delete @ [w]
        else to_delete) [] was_required_by_packages"

lemma del_packages_length:
  "del_packages ps d = Inr d' \<Longrightarrow> length d' + length ps \<le> length d"
proof (induction ps arbitrary: d)
  case Nil
  then show ?case by simp
next
  case (Cons p ps)
  from Cons.prems obtain d1 where k: "map_of d (name p) \<noteq> None" and d1: "d1 = dict_del (name p) d"
    and rest: "del_packages ps d1 = Inr d'"
    by (auto simp: del_key_def split: if_splits sum.splits)
  from k obtain v where "(name p, v) \<in> set d" by (auto dest: map_of_SomeD)
  then have "length (filter (\<lambda>kv. fst kv \<noteq> name p) d) < length d"
    by (intro length_filter_less[where x = "(name p, v)"]) auto
  then have "length d1 < length d" by (simp add: d1 dict_del_def)
  then show ?case using Cons.IH[OF rest] by simp
qed

lemma System_length: "System ps = Inr s \<Longrightarrow> length (all_packages_dict s) = length ps"
proof -
  assume a: "System ps = Inr s"
  then obtain s1 where e: "append_each empty_system ps = Inr s1"
    and s: "all_packages_dict s = all_packages_dict s1"
    by (auto simp: System_def append_packages_def split: sum.splits)
  have "length (all_packages_dict s') = length (all_packages_dict s0) + length qs"
    if "append_each s0 qs = Inr s'" for s0 qs s'
    using that
  proof (induction qs arbitrary: s0)
    case Nil
    then show ?case by simp
  next
    case (Cons q qs)
    from Cons.prems obtain s2 where a2: "append_package s0 q = Inr s2" and r: "append_each s2 qs = Inr s'"
      by (auto split: sum.splits)
    from a2 have "length (all_packages_dict s2) = Suc (length (all_packages_dict s0))"
      by (auto simp: append_package_def Let_def split: if_splits PossibleTypes.splits)
    then show ?case using Cons.IH[OF r] by simp
  qed
  from this[OF e] show ?thesis using s by (simp add: empty_system_def)
qed

text \<open>The loop of lines 977 to 995, entered with the system, \<^verbatim>\<open>to_delete_packages\<close>
  and \<^verbatim>\<open>deleted_packages\<close>.\<close>

function cascade :: "vercmp \<Rightarrow> system \<Rightarrow> package list \<Rightarrow> package list \<Rightarrow> error + system" where
  "cascade vc s to_delete_packages deleted_packages =
     (if to_delete_packages = [] \<and> deleted_packages = [] then Inr s
      else
        (case del_packages to_delete_packages (all_packages_dict s) of
           Inl e \<Rightarrow> Inl e
         | Inr d \<Rightarrow>
             (case System (dict_values d) of
                Inl e \<Rightarrow> Inl e
              | Inr s' \<Rightarrow>
                  cascade vc s'
                    (unfulfilled vc s'
                       (was_required_by s' (deleted_packages @ to_delete_packages)))
                    [])))"
  by pat_completeness auto
termination
proof (relation "measure (\<lambda>(vc, s, td, dl). 2 * length (all_packages_dict s) + (if dl = [] then 0 else 1))",
    goal_cases)
  case 1
  then show ?case by simp
next
  case (2 vc s td dl d s')
  from del_packages_length[OF 2(2)] System_length[OF 2(3)] 2(1)
  show ?case by (cases td) (auto simp: dict_values_def)
qed

declare cascade.simps [simp del]

text \<open>The loop of lines 997 to 1009.\<close>

function recheck :: "vercmp \<Rightarrow> system \<Rightarrow> package list \<Rightarrow> error + system" where
  "recheck vc s packages =
     (let to_delete_packages =
            filter (\<lambda>p. map_of (all_packages_dict s) (name p) \<noteq> None \<and>
                         \<not> are_all_deps_fulfilled vc s p) packages
      in if to_delete_packages = [] then Inr s
         else
           (case del_packages to_delete_packages (all_packages_dict s) of
              Inl e \<Rightarrow> Inl e
            | Inr d \<Rightarrow>
                (case System (dict_values d) of
                   Inl e \<Rightarrow> Inl e
                 | Inr s' \<Rightarrow> recheck vc s' packages)))"
  by pat_completeness auto
termination
proof (relation "measure (\<lambda>(vc, s, ps). length (all_packages_dict s))", goal_cases)
  case 1
  then show ?case by simp
next
  case (2 vc s ps td d s')
  from del_packages_length[OF 2(3)] System_length[OF 2(4)] 2(2)
  show ?case by (cases td) (auto simp: dict_values_def)
qed

declare recheck.simps [simp del]

text \<open>\<^verbatim>\<open>System.hypothetical_append_packages_to_system\<close>, on the value of \<^verbatim>\<open>self\<close>.
  \<^verbatim>\<open>list(set(to_delete_packages))\<close> is taken in the order of first occurrence.\<close>

definition hypothetical_append_packages_to_system ::
  "vercmp \<Rightarrow> system \<Rightarrow> package list \<Rightarrow> error + system" where
  "hypothetical_append_packages_to_system vc self packages =
     (let st = foldl displace (all_packages_dict self, []) packages
      in case System (dict_values (fst st)) of
           Inl e \<Rightarrow> Inl e
         | Inr s1 \<Rightarrow>
             (let to_delete_packages = pkg_set (concat (map (conflicting_with vc s1) packages))
              in case append_packages s1 packages of
                   Inl e \<Rightarrow> Inl e
                 | Inr s2 \<Rightarrow>
                     (case cascade vc s2 to_delete_packages (snd st) of
                        Inl e \<Rightarrow> Inl e
                      | Inr s3 \<Rightarrow> recheck vc s3 packages)))"

section \<open>Choosing a plan\<close>

text \<open>\<^verbatim>\<open>System.differences_between_systems\<close>. The sets of packages are lists here;
  membership is by \<^verbatim>\<open>Package.__eq__\<close>.\<close>

definition difference_tuple :: "system \<Rightarrow> system \<Rightarrow> package list \<times> package list" where
  "difference_tuple self other_system =
     (filter (\<lambda>p. \<not> pkg_in p (dict_values (all_packages_dict self)))
        (dict_values (all_packages_dict other_system)),
      filter (\<lambda>p. \<not> pkg_in p (dict_values (all_packages_dict other_system)))
        (dict_values (all_packages_dict self)))"

definition intersection :: "package list list \<Rightarrow> package list" where
  "intersection sets = filter (\<lambda>p. list_all (pkg_in p) (tl sets)) (hd sets)"

definition differences_between_systems ::
  "system \<Rightarrow> system list \<Rightarrow> (package list \<times> package list) \<times> (package list \<times> package list) list" where
  "differences_between_systems self other_systems =
     (let differences_tuples = map (difference_tuple self) other_systems;
          first_return_tuple = (intersection (map fst differences_tuples),
                                intersection (map snd differences_tuples))
      in (first_return_tuple,
          map (\<lambda>t. (filter (\<lambda>p. \<not> pkg_in p (fst first_return_tuple)) (fst t),
                     filter (\<lambda>p. \<not> pkg_in p (snd first_return_tuple)) (snd t)))
            differences_tuples))"

text \<open>What the user sees and types while a plan is chosen.\<close>

datatype event =
    ShowFound nat
  | ShowSolution nat "string list" "string list"
  | AskNumber
  | NotValid

text \<open>Line 1091: the hypothetical systems of the plans, in order; the first exception
  ends the call.\<close>

fun new_systems :: "vercmp \<Rightarrow> system \<Rightarrow> package list list \<Rightarrow> error + system list" where
  "new_systems vc self [] = Inr []"
| "new_systems vc self (solution # solutions) =
     (case hypothetical_append_packages_to_system vc self solution of
        Inl e \<Rightarrow> Inl e
      | Inr s \<Rightarrow>
          (case new_systems vc self solutions of
             Inl e \<Rightarrow> Inl e
           | Inr ss \<Rightarrow> Inr (s # ss)))"

text \<open>Lines 1094 to 1100: the indices of the systems that hold every needed name.\<close>

definition holds_needed :: "package list \<Rightarrow> system \<Rightarrow> bool" where
  "holds_needed needed_packages new_system =
     list_all (\<lambda>p. map_of (all_packages_dict new_system) (name p) \<noteq> None) needed_packages"

definition valid_solutions_indices :: "package list \<Rightarrow> system list \<Rightarrow> nat list" where
  "valid_solutions_indices needed_packages systems =
     filter (\<lambda>i. holds_needed needed_packages (systems ! i)) [0..<length systems]"

text \<open>Lines 1121 to 1131: one system for each set of differences. \<open>seen\<close> is
  \<^verbatim>\<open>diff_set\<close>.\<close>

definition same_set :: "package list \<Rightarrow> package list \<Rightarrow> bool" where
  "same_set xs ys = (list_all (\<lambda>x. pkg_in x ys) xs \<and> list_all (\<lambda>y. pkg_in y xs) ys)"

fun delete_duplicates ::
  "(nat \<times> package list) list \<Rightarrow> package list list \<Rightarrow> nat list" where
  "delete_duplicates [] seen = []"
| "delete_duplicates ((i, cont_set) # rest) seen =
     (if list_ex (same_set cont_set) seen then delete_duplicates rest seen
      else i # delete_duplicates rest (seen @ [cont_set]))"

text \<open>Lines 1139 to 1147: the solutions as they are printed in every round.\<close>

definition show_solutions :: "(package list \<times> package list) list \<Rightarrow> event list" where
  "show_solutions diffs =
     map (\<lambda>i. ShowSolution (i + 1) (sort (map name (fst (diffs ! i))))
                                   (sort (map name (snd (diffs ! i)))))
       [0..<length diffs]"

text \<open>Lines 1137 to 1156: the loop over what the user types, a number or something
  that \<^verbatim>\<open>int\<close> refuses (\<open>None\<close>). It returns the index chosen and what was shown.\<close>

fun choose_solution ::
  "nat \<Rightarrow> event list \<Rightarrow> int option list \<Rightarrow> event list \<Rightarrow> error + (nat \<times> event list)" where
  "choose_solution n round [] shown = Inl EOFError"
| "choose_solution n round (user_input # rest) shown =
     (case user_input of
        None \<Rightarrow> choose_solution n round rest (shown @ round @ [AskNumber, NotValid])
      | Some i \<Rightarrow>
          if 1 \<le> i \<and> i \<le> int n then Inr (nat (i - 1), shown @ round @ [AskNumber])
          else choose_solution n round rest (shown @ round @ [AskNumber, NotValid]))"

text \<open>Lines 1111 to 1156: the choice among several valid systems.\<close>

definition choose_among ::
  "system \<Rightarrow> package list list \<Rightarrow> nat list \<Rightarrow> system list \<Rightarrow> int option list
     \<Rightarrow> error + (package list \<times> event list)" where
  "choose_among self solutions indices valid_systems user_inputs =
     (let systems_differences = differences_between_systems self valid_systems;
          single_differences_count =
            sum_list (map (\<lambda>t. length (fst t) + length (snd t)) (snd systems_differences))
      in if single_differences_count = 0 then Inr (solutions ! (indices ! 0), [])
         else
           (let kept = delete_duplicates
                  (map (\<lambda>k. (k, pkg_set (fst (snd systems_differences ! k) @
                                           snd (snd systems_differences ! k))))
                     [0..<length valid_systems]) [];
                new_valid_systems = map (\<lambda>k. valid_systems ! k) kept;
                new_indices = map (\<lambda>k. indices ! k) kept;
                new_differences = differences_between_systems self new_valid_systems
            in case choose_solution (length new_valid_systems)
                      (show_solutions (snd new_differences)) user_inputs
                      [ShowFound (length new_valid_systems)] of
                 Inl e \<Rightarrow> Inl e
               | Inr (choice, shown) \<Rightarrow> Inr (solutions ! (new_indices ! choice), shown)))"

text \<open>\<^verbatim>\<open>System.validate_and_choose_solution\<close>: the plan returned, with what was shown
  to the user and asked of him on the way.\<close>

definition validate_and_choose_solution ::
  "vercmp \<Rightarrow> system \<Rightarrow> package list list \<Rightarrow> package list \<Rightarrow> int option list
     \<Rightarrow> error + (package list \<times> event list)" where
  "validate_and_choose_solution vc self solutions needed_packages user_inputs =
     (case new_systems vc self solutions of
        Inl e \<Rightarrow> Inl e
      | Inr systems \<Rightarrow>
          (let indices = valid_solutions_indices needed_packages systems;
               valid_systems = map (\<lambda>i. systems ! i) indices
           in if valid_systems = [] then Inl (InvalidInput ''No valid solutions found'')
              else if length valid_systems = 1 then Inr (solutions ! (indices ! 0), [])
              else choose_among self solutions indices valid_systems user_inputs))"

section \<open>Example packages and systems\<close>

text \<open>A package as the loaders build one for a repository query: the three lists
  given, no \<^verbatim>\<open>makedepends\<close>, \<^verbatim>\<open>checkdepends\<close> or \<^verbatim>\<open>required_by\<close>.\<close>

definition pkg ::
  "string \<Rightarrow> string \<Rightarrow> string list \<Rightarrow> string list \<Rightarrow> string list \<Rightarrow> PossibleTypes \<Rightarrow> package" where
  "pkg n v deps confl prov t = \<lparr> name = n, version = v, depends = Some deps, conflicts = confl,
     required_by = None, provides = prov, makedepends = None, checkdepends = None, type_of = t \<rparr>"

text \<open>The system of a list of packages with distinct names.\<close>

definition system_of :: "package list \<Rightarrow> system" where
  "system_of ps = (case System ps of Inl e \<Rightarrow> empty_system | Inr s \<Rightarrow> s)"

text \<open>A version comparison for examples whose atoms carry no operator, where it is
  never consulted.\<close>

definition no_version :: vercmp where
  "no_version v1 cmp v2 = False"

text \<open>Two packages that depend on each other, from the repositories and from the AUR.\<close>

definition repoA :: package where "repoA = pkg ''A'' ''1'' [''B''] [] [] REPO_PACKAGE"
definition repoB :: package where "repoB = pkg ''B'' ''1'' [''A''] [] [] REPO_PACKAGE"
definition aurA :: package where "aurA = pkg ''A'' ''1'' [''B''] [] [] AUR_PACKAGE"
definition aurB :: package where "aurB = pkg ''B'' ''1'' [''A''] [] [] AUR_PACKAGE"



section \<open>Evaluation and induction rules\<close>

lemmas system_eval = System_def append_packages_def append_package_def empty_system_def
  append_to_x_dict_def dict_append_def strip_versioning_from_name_def is_op_char_def
  system_of_def pkg_def

lemmas provided_by_eval = provided_by_def provided_by_package_def provided_by_provide_def
  pkg_in_def pkg_eq_def

lemma ofold_induct:
  assumes "ofold f xs s = Returned t" and "P s"
    and "\<And>x s s'. x \<in> set xs \<Longrightarrow> P s \<Longrightarrow> f x s = Returned s' \<Longrightarrow> P s'"
  shows "P t"
  using assms
proof (induction xs arbitrary: s)
  case Nil
  then show ?case by simp
next
  case (Cons x xs)
  from Cons.prems(1) obtain s' where fx: "f x s = Returned s'" and rest: "ofold f xs s' = Returned t"
    by (auto split: outcome.splits)
  have "P s'" using Cons.prems(3)[of x s s'] Cons.prems(2) fx by simp
  show ?case
    by (rule Cons.IH[OF rest \<open>P s'\<close>]) (use Cons.prems(3) in auto)
qed

lemma expand_one_snd:
  assumes "expand_one rec solution p st = Returned st'"
  obtains r where "rec p solution (snd st) = Returned r" and "st' = (fst st @ fst r, snd r)"
  using assms by (auto simp: expand_one_def split: outcome.splits)

text \<open>The four ways through the body of \<^verbatim>\<open>solutions_for_dep_problem\<close>.\<close>

lemma expand_body_cases:
  assumes "expand_body rec vc inst up ouf deep self sol found = Returned r"
  obtains
    (selected) "pkg_in self (packages_in_solution sol)" "r = ([sol], found)"
  | (cycle) "\<not> pkg_in self (packages_in_solution sol)" "pkg_in self (visited_packages sol)"
      "type_of self \<noteq> REPO_PACKAGE" "r = ([], record_cycle self sol found)"
  | (revisit) "\<not> pkg_in self (packages_in_solution sol)" "pkg_in self (visited_packages sol)"
      "type_of self = REPO_PACKAGE" "r = ([sol], found)"
  | (expand) conflict_sys st where
      "\<not> pkg_in self (packages_in_solution sol)" "\<not> pkg_in self (visited_packages sol)"
      "System (visited_packages sol) = Inr conflict_sys"
      "ofold (dep_step rec vc inst up ouf deep self) (relevant_deps self)
         ([visit self sol (conflicting_with vc conflict_sys self)],
          record_conflict self sol (conflicting_with vc conflict_sys self) found) = Returned st"
      "r = finish_expansion self st"
  using assms
  by (auto simp: expand_body_def Let_def split: if_splits sum.splits outcome.splits)

subsection \<open>Invariants of the problem set\<close>

text \<open>A property of \<^verbatim>\<open>found_problems\<close> that the three ways of recording a problem
  keep, and that the empty set has, holds after every expansion.\<close>

lemma dep_step_problems:
  assumes rec: "\<And>p sol found r. Q found \<Longrightarrow> rec p sol found = Returned r \<Longrightarrow> Q (snd r)"
    and np: "\<And>found. Q found \<Longrightarrow> Q (problems_add (DepAlgoNotProvided dep self) found)"
    and q: "Q (snd st)"
    and run: "dep_step rec vc inst up ouf deep self dep st = Returned st'"
  shows "Q (snd st')"
proof (cases "ouf \<and> provided_by vc inst dep \<noteq> []")
  case True
  then show ?thesis using run q by (simp add: dep_step_def)
next
  case False
  define found1 where "found1 = (if provided_by vc up dep = []
      then problems_add (DepAlgoNotProvided dep self) (snd st) else snd st)"
  have q1: "Q found1" using q np by (simp add: found1_def)
  from run False obtain fin nf where
    fold: "ofold (\<lambda>solution. ofold (expand_one rec solution)
             (relevant_providers deep dep (provided_by vc up dep))) nf (fin, found1) = Returned st'"
    by (auto simp: dep_step_def Let_def found1_def split: sum.splits prod.splits)
  have inner: "\<And>solution s s'. Q (snd s) \<Longrightarrow>
      ofold (expand_one rec solution) (relevant_providers deep dep (provided_by vc up dep)) s = Returned s'
      \<Longrightarrow> Q (snd s')"
  proof -
    fix solution s s'
    assume "Q (snd s)" and f: "ofold (expand_one rec solution)
        (relevant_providers deep dep (provided_by vc up dep)) s = Returned s'"
    show "Q (snd s')"
      by (rule ofold_induct[OF f, where P = "\<lambda>s. Q (snd s)"])
         (use \<open>Q (snd s)\<close> rec in \<open>auto elim!: expand_one_snd\<close>)
  qed
  show ?thesis
    by (rule ofold_induct[OF fold, where P = "\<lambda>s. Q (snd s)"]) (use q1 inner in auto)
qed

lemma expand_body_problems:
  assumes rec: "\<And>p sol found r. Q found \<Longrightarrow> rec p sol found = Returned r \<Longrightarrow> Q (snd r)"
    and cyc: "\<And>self sol found. Q found \<Longrightarrow> pkg_in self (visited_packages sol) \<Longrightarrow>
        type_of self \<noteq> REPO_PACKAGE \<Longrightarrow> Q (record_cycle self sol found)"
    and con: "\<And>self sol cs found. Q found \<Longrightarrow> Q (record_conflict self sol cs found)"
    and np: "\<And>dep self found. Q found \<Longrightarrow> Q (problems_add (DepAlgoNotProvided dep self) found)"
    and emp: "Q []"
    and q: "Q found"
    and run: "expand_body rec vc inst up ouf deep self sol found = Returned r"
  shows "Q (snd r)"
  using run
proof (cases rule: expand_body_cases)
  case selected
  then show ?thesis using q by simp
next
  case cycle
  then show ?thesis using q cyc by simp
next
  case revisit
  then show ?thesis using q by simp
next
  case (expand conflict_sys st)
  have start: "Q (snd ([visit self sol (conflicting_with vc conflict_sys self)],
      record_conflict self sol (conflicting_with vc conflict_sys self) found))"
    using q con by simp
  have step: "\<And>x s s'. Q (snd s) \<Longrightarrow> dep_step rec vc inst up ouf deep self x s = Returned s'
      \<Longrightarrow> Q (snd s')"
  proof -
    fix x s s'
    assume a: "Q (snd s)" and b: "dep_step rec vc inst up ouf deep self x s = Returned s'"
    show "Q (snd s')"
      by (rule dep_step_problems[where Q = Q, OF rec np a b])
  qed
  have "Q (snd st)"
    by (rule ofold_induct[OF expand(4), where P = "\<lambda>s. Q (snd s)"]) (fact start, rule step)
  then show ?thesis using expand(5) emp by (simp add: finish_expansion_def)
qed

lemma solver_problems:
  assumes cyc: "\<And>self sol found. Q found \<Longrightarrow> pkg_in self (visited_packages sol) \<Longrightarrow>
        type_of self \<noteq> REPO_PACKAGE \<Longrightarrow> Q (record_cycle self sol found)"
    and con: "\<And>self sol cs found. Q found \<Longrightarrow> Q (record_conflict self sol cs found)"
    and np: "\<And>dep self found. Q found \<Longrightarrow> Q (problems_add (DepAlgoNotProvided dep self) found)"
    and emp: "Q []"
  shows "Q found \<Longrightarrow> solutions_for_dep_problem n vc inst up ouf deep self sol found = Returned r
     \<Longrightarrow> Q (snd r)"
proof (induction n arbitrary: self sol found r)
  case 0
  then show ?case by simp
next
  case (Suc n)
  have run: "expand_body (solutions_for_dep_problem n vc inst up ouf deep) vc inst up ouf deep
      self sol found = Returned r"
    using Suc.prems(2) by simp
  show ?case
    by (rule expand_body_problems[where Q = Q, OF Suc.IH cyc con np emp Suc.prems(1) run])
qed

lemmas solver_eval = expand_body_def dep_step_def finish_expansion_def expand_one_def
  record_cycle_def record_conflict_def new_conflict_def visit_def mark_not_provided_def relevant_providers_def
  problems_add_def empty_solution_def relevant_deps_def extend_opt_def conflicting_with_def
  conflicting_with_own_def conflicting_with_package_def conflicting_with_theirs_def
  pkg_set_def pkg_set_add_def min_list_def solve_pass_def solve_package_def no_version_def Let_def


subsection \<open>Cycle records\<close>

lemma pkg_index_in: "pkg_in p xs \<Longrightarrow> pkg_index p xs < length xs \<and> pkg_eq (xs ! pkg_index p xs) p"
  by (induction xs) (auto simp: pkg_in_def pkg_eq_def)

lemma set_problems_add: "set (problems_add prob found) \<subseteq> insert prob (set found)"
  by (auto simp: problems_add_def)

lemma record_conflict_cycles:
  "DepAlgoCycle c \<in> set (record_conflict self sol cs found) \<Longrightarrow> DepAlgoCycle c \<in> set found"
  using set_problems_add by (fastforce simp: record_conflict_def new_conflict_def Let_def split: if_splits)

lemma record_cycle_cycles:
  "DepAlgoCycle c \<in> set (record_cycle self sol found) \<Longrightarrow>
     DepAlgoCycle c \<in> set found \<or>
     c = drop (pkg_index self (visited_packages sol)) (visited_packages sol) @ [self]"
  using set_problems_add by (fastforce simp: record_cycle_def Let_def split: if_splits)

lemma not_provided_cycles:
  "DepAlgoCycle c \<in> set (problems_add (DepAlgoNotProvided dep self) found) \<Longrightarrow>
     DepAlgoCycle c \<in> set found"
  using set_problems_add by fastforce

lemma solver_new_cycles:
  assumes run: "solutions_for_dep_problem n vc inst up ouf deep self sol found = Returned r"
    and c: "DepAlgoCycle c \<in> set (snd r)"
  shows "DepAlgoCycle c \<in> set found \<or> revisit_cycle c"
proof -
  define Q where "Q = (\<lambda>f. \<forall>c. DepAlgoCycle c \<in> set f \<longrightarrow> DepAlgoCycle c \<in> set found \<or> revisit_cycle c)"
  have "Q (snd r)"
  proof (rule solver_problems[where Q = Q, OF _ _ _ _ _ run])
    show "Q found" by (simp add: Q_def)
    show "Q []" by (simp add: Q_def)
    show "\<And>self sol cs found. Q found \<Longrightarrow> Q (record_conflict self sol cs found)"
      unfolding Q_def using record_conflict_cycles by blast
    show "\<And>dep self found. Q found \<Longrightarrow> Q (problems_add (DepAlgoNotProvided dep self) found)"
      unfolding Q_def using not_provided_cycles by blast
    show "\<And>self sol found. Q found \<Longrightarrow> pkg_in self (visited_packages sol) \<Longrightarrow>
        type_of self \<noteq> REPO_PACKAGE \<Longrightarrow> Q (record_cycle self sol found)"
      unfolding Q_def revisit_cycle_def using record_cycle_cycles by blast
  qed
  then show ?thesis using c by (simp add: Q_def)
qed

lemma revisit_cycle_shape:
  assumes "revisit_cycle c"
  shows "2 \<le> length c" and "pkg_eq (hd c) (last c)" and "type_of (last c) \<noteq> REPO_PACKAGE"
proof -
  from assms obtain p v where pv: "pkg_in p v" and t: "type_of p \<noteq> REPO_PACKAGE"
    and c: "c = drop (pkg_index p v) v @ [p]"
    by (auto simp: revisit_cycle_def)
  from pkg_index_in[OF pv] have lt: "pkg_index p v < length v" and eq: "pkg_eq (v ! pkg_index p v) p"
    by auto
  from lt have ne: "drop (pkg_index p v) v \<noteq> []" by simp
  show "2 \<le> length c" using lt c by simp
  have "hd c = v ! pkg_index p v" using c ne lt by (simp add: hd_drop_conv_nth)
  then show "pkg_eq (hd c) (last c)" using eq c by simp
  show "type_of (last c) \<noteq> REPO_PACKAGE" using c t by simp
qed

subsection \<open>The sweep at the end of an expansion\<close>






subsection \<open>Invariants of the solutions and the problem set\<close>

text \<open>A property \<open>I\<close> of solutions and a property \<open>J\<close> of \<^verbatim>\<open>found_problems\<close> that
  every step of the expansion keeps, for packages with the property \<open>U\<close> that all
  upstream providers have, hold of what an expansion returns.\<close>

lemma check_in_solution_inv:
  assumes "check_in_solution vc dep xs acc = Inr acc'"
    and "\<forall>s \<in> set xs. I s" and "\<forall>s \<in> set (fst acc) \<union> set (snd acc). I s"
    and name: "\<And>s. I s \<Longrightarrow> I (s\<lparr>visited_names := insert dep (visited_names s)\<rparr>)"
  shows "\<forall>s \<in> set (fst acc') \<union> set (snd acc'). I s"
  using assms(1-3)
proof (induction xs arbitrary: acc)
  case Nil
  then show ?case by simp
next
  case (Cons x xs)
  obtain fin nf where acc: "acc = (fin, nf)" by (cases acc)
  have ix: "I (x\<lparr>visited_names := insert dep (visited_names x)\<rparr>)"
    using Cons.prems(2) name by simp
  from Cons.prems(1) acc obtain acc1 where
    rest: "check_in_solution vc dep xs acc1 = Inr acc'" and
    a1: "acc1 = (fin @ [x\<lparr>visited_names := insert dep (visited_names x)\<rparr>], nf) \<or>
         acc1 = (fin, nf @ [x\<lparr>visited_names := insert dep (visited_names x)\<rparr>])"
    by (auto simp: Let_def split: sum.splits if_splits)
  have "\<forall>s \<in> set (fst acc1) \<union> set (snd acc1). I s"
    using a1 ix Cons.prems(3) acc by auto
  then show ?case using Cons.IH[OF rest] Cons.prems(2) by simp
qed

lemma relevant_providers_subset:
  "set (relevant_providers deep dep ps) \<subseteq> set ps"
  by (auto simp: relevant_providers_def)

lemma dep_step_cases:
  assumes "dep_step rec vc inst up ouf deep self dep st = Returned st'"
  obtains (skip) "ouf" "provided_by vc inst dep \<noteq> []" "st' = st"
  | (resolve) fin nf where "\<not> (ouf \<and> provided_by vc inst dep \<noteq> [])"
      "check_in_solution vc dep
         (filter (\<lambda>s. dep \<notin> visited_names s)
            (if provided_by vc up dep = [] then map (mark_not_provided dep) (fst st) else fst st))
         (filter (\<lambda>s. dep \<in> visited_names s)
            (if provided_by vc up dep = [] then map (mark_not_provided dep) (fst st) else fst st), [])
       = Inr (fin, nf)"
      "ofold (\<lambda>solution. ofold (expand_one rec solution)
                (relevant_providers deep dep (provided_by vc up dep)))
         nf (fin, if provided_by vc up dep = []
                  then problems_add (DepAlgoNotProvided dep self) (snd st) else snd st) = Returned st'"
  using assms
  by (auto simp: dep_step_def Let_def split: if_splits sum.splits prod.splits)

lemma dep_step_inv:
  assumes rec: "\<And>q sol found r. U q \<Longrightarrow> I sol \<Longrightarrow> J found \<Longrightarrow> rec q sol found = Returned r
        \<Longrightarrow> (\<forall>s \<in> set (fst r). I s) \<and> J (snd r)"
    and prov: "\<And>q. q \<in> set (provided_by vc up dep) \<Longrightarrow> U q"
    and mark: "\<And>s. I s \<Longrightarrow> I (mark_not_provided dep s)"
    and name: "\<And>s. I s \<Longrightarrow> I (s\<lparr>visited_names := insert dep (visited_names s)\<rparr>)"
    and np: "\<And>found. J found \<Longrightarrow> J (problems_add (DepAlgoNotProvided dep self) found)"
    and st: "(\<forall>s \<in> set (fst st). I s) \<and> J (snd st)"
    and run: "dep_step rec vc inst up ouf deep self dep st = Returned st'"
  shows "(\<forall>s \<in> set (fst st'). I s) \<and> J (snd st')"
  using run
proof (cases rule: dep_step_cases)
  case skip
  then show ?thesis using st by simp
next
  case (resolve fin nf)
  let ?cur = "if provided_by vc up dep = [] then map (mark_not_provided dep) (fst st) else fst st"
  let ?found = "if provided_by vc up dep = []
                  then problems_add (DepAlgoNotProvided dep self) (snd st) else snd st"
  have cur: "\<forall>s \<in> set ?cur. I s" using st mark by auto
  have j1: "J ?found" using st np by simp
  have "\<forall>s \<in> set (fst (fin, nf)) \<union> set (snd (fin, nf)). I s"
    by (rule check_in_solution_inv[OF resolve(2), where I = I]) (use cur name in auto)
  then have fin: "\<forall>s \<in> set fin. I s" and nf: "\<forall>s \<in> set nf. I s" by auto
  define S where "S = (\<lambda>st :: search_state. (\<forall>s \<in> set (fst st). I s) \<and> J (snd st))"
  have inner: "S t'" if sol: "I solution" and t: "S t"
      and f: "ofold (expand_one rec solution) (relevant_providers deep dep (provided_by vc up dep)) t
              = Returned t'" for solution t t'
  proof (rule ofold_induct[OF f, where P = S])
    show "S t" by fact
  next
    fix q u u'
    assume q: "q \<in> set (relevant_providers deep dep (provided_by vc up dep))" and u: "S u"
      and e: "expand_one rec solution q u = Returned u'"
    have "U q" using q relevant_providers_subset prov by blast
    from e obtain r where r: "rec q solution (snd u) = Returned r" and u': "u' = (fst u @ fst r, snd r)"
      by (rule expand_one_snd)
    from rec[OF \<open>U q\<close> sol _ r] u have "(\<forall>s \<in> set (fst r). I s) \<and> J (snd r)" by (simp add: S_def)
    then show "S u'" using u u' by (auto simp: S_def)
  qed
  have "S st'"
  proof (rule ofold_induct[OF resolve(3), where P = S])
    show "S (fin, ?found)" using fin j1 by (simp add: S_def)
  next
    fix x t t'
    assume "x \<in> set nf" and "S t" and
      "ofold (expand_one rec x) (relevant_providers deep dep (provided_by vc up dep)) t = Returned t'"
    then show "S t'" using inner nf by blast
  qed
  then show ?thesis by (simp add: S_def)
qed

lemma expand_body_inv:
  assumes rec: "\<And>q sol found r. U q \<Longrightarrow> I sol \<Longrightarrow> J found \<Longrightarrow> rec q sol found = Returned r
        \<Longrightarrow> (\<forall>s \<in> set (fst r). I s) \<and> J (snd r)"
    and prov: "\<And>dep q. q \<in> set (provided_by vc up dep) \<Longrightarrow> U q"
    and mark: "\<And>dep s. I s \<Longrightarrow> I (mark_not_provided dep s)"
    and name: "\<And>dep s. I s \<Longrightarrow> I (s\<lparr>visited_names := insert dep (visited_names s)\<rparr>)"
    and vis: "\<And>self sol cs. U self \<Longrightarrow> I sol \<Longrightarrow> I (visit self sol cs)"
    and fin: "\<And>self s. U self \<Longrightarrow> I s \<Longrightarrow> I (s\<lparr>packages_in_solution := packages_in_solution s @ [self]\<rparr>)"
    and np: "\<And>dep self found. U self \<Longrightarrow> J found \<Longrightarrow> J (problems_add (DepAlgoNotProvided dep self) found)"
    and cyc: "\<And>self sol found. U self \<Longrightarrow> I sol \<Longrightarrow> J found \<Longrightarrow> pkg_in self (visited_packages sol) \<Longrightarrow>
        type_of self \<noteq> REPO_PACKAGE \<Longrightarrow> J (record_cycle self sol found)"
    and con: "\<And>self sol cs found. U self \<Longrightarrow> I sol \<Longrightarrow> J found \<Longrightarrow>
        System (visited_packages sol) = Inr cs \<Longrightarrow>
        J (record_conflict self sol (conflicting_with vc cs self) found)"
    and emp: "\<And>s. I s \<Longrightarrow> is_valid s \<Longrightarrow> J []"
    and pre: "U self" "I sol" "J found"
    and run: "expand_body rec vc inst up ouf deep self sol found = Returned r"
  shows "(\<forall>s \<in> set (fst r). I s) \<and> J (snd r)"
  using run
proof (cases rule: expand_body_cases)
  case selected
  then show ?thesis using pre by simp
next
  case cycle
  then show ?thesis using pre cyc by simp
next
  case revisit
  then show ?thesis using pre by simp
next
  case (expand conflict_sys st)
  define S where "S = (\<lambda>st :: search_state. (\<forall>s \<in> set (fst st). I s) \<and> J (snd st))"
  have "S st"
  proof (rule ofold_induct[OF expand(4), where P = S])
    show "S ([visit self sol (conflicting_with vc conflict_sys self)],
             record_conflict self sol (conflicting_with vc conflict_sys self) found)"
      using pre vis con[OF pre expand(3)] by (simp add: S_def)
  next
    fix dep t t'
    assume t: "S t" and d: "dep_step rec vc inst up ouf deep self dep t = Returned t'"
    have "(\<forall>s \<in> set (fst t'). I s) \<and> J (snd t')"
      by (rule dep_step_inv[where I = I and J = J and U = U, OF rec prov mark name np[OF pre(1)] _ d])
         (use t in \<open>simp_all add: S_def\<close>)
    then show "S t'" by (simp add: S_def)
  qed
  then have i: "\<forall>s \<in> set (fst st). I s" and j: "J (snd st)" by (simp_all add: S_def)
  have "J (snd r)"
  proof (cases "filter is_valid (fst st) = []")
    case True
    then show ?thesis using expand(5) j by (simp add: finish_expansion_def)
  next
    case False
    then obtain s where "s \<in> set (fst st)" "is_valid s"
      by (auto simp: filter_empty_conv)
    then have "J []" using emp i by blast
    then show ?thesis using expand(5) False by (simp add: finish_expansion_def)
  qed
  moreover have "\<forall>s \<in> set (fst r). I s"
    using expand(5) i fin[OF pre(1)] by (auto simp: finish_expansion_def)
  ultimately show ?thesis by simp
qed

lemma solver_inv:
  assumes prov: "\<And>dep q. q \<in> set (provided_by vc up dep) \<Longrightarrow> U q"
    and mark: "\<And>dep s. I s \<Longrightarrow> I (mark_not_provided dep s)"
    and name: "\<And>dep s. I s \<Longrightarrow> I (s\<lparr>visited_names := insert dep (visited_names s)\<rparr>)"
    and vis: "\<And>self sol cs. U self \<Longrightarrow> I sol \<Longrightarrow> I (visit self sol cs)"
    and fin: "\<And>self s. U self \<Longrightarrow> I s \<Longrightarrow> I (s\<lparr>packages_in_solution := packages_in_solution s @ [self]\<rparr>)"
    and np: "\<And>dep self found. U self \<Longrightarrow> J found \<Longrightarrow> J (problems_add (DepAlgoNotProvided dep self) found)"
    and cyc: "\<And>self sol found. U self \<Longrightarrow> I sol \<Longrightarrow> J found \<Longrightarrow> pkg_in self (visited_packages sol) \<Longrightarrow>
        type_of self \<noteq> REPO_PACKAGE \<Longrightarrow> J (record_cycle self sol found)"
    and con: "\<And>self sol cs found. U self \<Longrightarrow> I sol \<Longrightarrow> J found \<Longrightarrow>
        System (visited_packages sol) = Inr cs \<Longrightarrow>
        J (record_conflict self sol (conflicting_with vc cs self) found)"
    and emp: "\<And>s. I s \<Longrightarrow> is_valid s \<Longrightarrow> J []"
  shows "U self \<Longrightarrow> I sol \<Longrightarrow> J found \<Longrightarrow>
     solutions_for_dep_problem n vc inst up ouf deep self sol found = Returned r \<Longrightarrow>
     (\<forall>s \<in> set (fst r). I s) \<and> J (snd r)"
proof (induction n arbitrary: self sol found r)
  case 0
  then show ?case by simp
next
  case (Suc n)
  have run: "expand_body (solutions_for_dep_problem n vc inst up ouf deep) vc inst up ouf deep
      self sol found = Returned r"
    using Suc.prems(4) by simp
  show ?case
    by (rule expand_body_inv[where I = I and J = J and U = U,
          OF Suc.IH prov mark name vis fin np cyc con emp Suc.prems(1-3) run])
qed

subsection \<open>Conflict records\<close>


lemma pkg_in_trans: "pkg_eq x p \<Longrightarrow> pkg_in p xs \<Longrightarrow> pkg_in x xs"
  by (auto simp: pkg_in_def pkg_eq_def list_ex_iff)













subsection \<open>What the indexes of a system hold\<close>

lemma provided_by_provide_subset:
  "set (foldl (provided_by_provide vc dn dc dv p) rl provs) \<subseteq> insert p (set rl)"
proof (induction provs arbitrary: rl)
  case Nil
  then show ?case by auto
next
  case (Cons a provs)
  have "set (provided_by_provide vc dn dc dv p rl a) \<subseteq> insert p (set rl)"
    by (auto simp: provided_by_provide_def split: prod.splits if_splits)
  then show ?case using Cons.IH[of "provided_by_provide vc dn dc dv p rl a"] by auto
qed

lemma provided_by_package_subset:
  "set (foldl (provided_by_package vc dn dc dv) rl ps) \<subseteq> set rl \<union> set ps"
proof (induction ps arbitrary: rl)
  case Nil
  then show ?case by simp
next
  case (Cons p ps)
  have "set (provided_by_package vc dn dc dv rl p) \<subseteq> insert p (set rl)"
    using provided_by_provide_subset by (simp add: provided_by_package_def) blast
  then show ?case using Cons.IH[of "provided_by_package vc dn dc dv rl p"] by auto
qed

lemma map_of_in_values: "map_of d k = Some v \<Longrightarrow> v \<in> set (dict_values d)"
  by (auto simp: dict_values_def dest: map_of_SomeD intro: rev_image_eqI)

lemma provided_by_subset: "set (provided_by vc s dep) \<subseteq> system_packages s"
proof -
  obtain dn dc dv where sp: "split_name_with_versioning dep = (dn, dc, dv)"
    by (cases "split_name_with_versioning dep")
  define rl where "rl = (case map_of (all_packages_dict s) dn of None \<Rightarrow> []
      | Some p \<Rightarrow> if dc = [] then [p] else if vc (version p) dc dv then [p] else [])"
  have rl: "set rl \<subseteq> system_packages s"
  proof (cases "map_of (all_packages_dict s) dn")
    case None
    then show ?thesis by (simp add: rl_def)
  next
    case (Some p)
    then have "p \<in> set (dict_values (all_packages_dict s))" by (rule map_of_in_values)
    then have "p \<in> system_packages s" by (simp add: system_packages_def)
    then show ?thesis using Some by (auto simp: rl_def)
  qed
  show ?thesis
  proof (cases "provides_dict s dn")
    case None
    then show ?thesis using rl sp by (simp add: provided_by_def rl_def)
  next
    case (Some ps)
    then have "set ps \<subseteq> system_packages s" by (auto simp: system_packages_def ran_def)
    moreover have "provided_by vc s dep = foldl (provided_by_package vc dn dc dv) rl ps"
      using sp Some by (simp add: provided_by_def rl_def)
    ultimately show ?thesis using provided_by_package_subset[of vc dn dc dv rl ps] rl by auto
  qed
qed

lemma append_each_dicts:
  "append_each s ps = Inr s' \<Longrightarrow>
     all_packages_dict s' = all_packages_dict s @ map (\<lambda>p. (name p, p)) ps \<and>
     provides_dict s' = provides_dict s \<and> conflicts_dict s' = conflicts_dict s"
proof (induction ps arbitrary: s)
  case Nil
  then show ?case by simp
next
  case (Cons p ps)
  from Cons.prems obtain s1 where a: "append_package s p = Inr s1" and r: "append_each s1 ps = Inr s'"
    by (auto split: sum.splits)
  from a have "all_packages_dict s1 = all_packages_dict s @ [(name p, p)] \<and>
     provides_dict s1 = provides_dict s \<and> conflicts_dict s1 = conflicts_dict s"
    by (auto simp: append_package_def Let_def split: if_splits PossibleTypes.splits)
  then show ?case using Cons.IH[OF r] by simp
qed

lemma dict_append_lists:
  "dict_append d vn p k = Some l \<Longrightarrow>
     set l \<subseteq> insert p (case d k of None \<Rightarrow> {} | Some l0 \<Rightarrow> set l0)"
  by (auto simp: dict_append_def split: option.splits if_splits)

lemma foldl_dict_append_lists:
  "foldl (\<lambda>d2 v. dict_append d2 (f v) p) d vs k = Some l \<Longrightarrow>
     set l \<subseteq> insert p (case d k of None \<Rightarrow> {} | Some l0 \<Rightarrow> set l0)"
proof (induction vs arbitrary: d)
  case Nil
  then show ?case by auto
next
  case (Cons v vs)
  from Cons.IH[OF Cons.prems[simplified]]
  have "set l \<subseteq> insert p (case dict_append d (f v) p k of None \<Rightarrow> {} | Some l0 \<Rightarrow> set l0)" .
  moreover have "(case dict_append d (f v) p k of None \<Rightarrow> {} | Some l0 \<Rightarrow> set l0)
      \<subseteq> insert p (case d k of None \<Rightarrow> {} | Some l0 \<Rightarrow> set l0)"
    using dict_append_lists[of d "f v" p k] by (auto split: option.splits)
  ultimately show ?case by blast
qed

lemma append_to_x_dict_lists:
  "append_to_x_dict field d ps k = Some l \<Longrightarrow>
     set l \<subseteq> set ps \<union> (case d k of None \<Rightarrow> {} | Some l0 \<Rightarrow> set l0)"
  unfolding append_to_x_dict_def
proof (induction ps arbitrary: d)
  case Nil
  then show ?case by auto
next
  case (Cons p ps)
  let ?d1 = "foldl (\<lambda>d2 v. dict_append d2 (strip_versioning_from_name v) p) d (field p)"
  from Cons.IH[OF Cons.prems[simplified]]
  have "set l \<subseteq> set ps \<union> (case ?d1 k of None \<Rightarrow> {} | Some l0 \<Rightarrow> set l0)" .
  moreover have "(case ?d1 k of None \<Rightarrow> {} | Some l0 \<Rightarrow> set l0)
      \<subseteq> insert p (case d k of None \<Rightarrow> {} | Some l0 \<Rightarrow> set l0)"
    using foldl_dict_append_lists[of strip_versioning_from_name p d "field p" k]
    by (auto split: option.splits)
  ultimately show ?case by auto
qed

lemma System_dicts:
  assumes "System ps = Inr s"
  shows "dict_values (all_packages_dict s) = ps"
    and "provides_dict s k = Some l \<Longrightarrow> set l \<subseteq> set ps"
    and "conflicts_dict s k = Some l \<Longrightarrow> set l \<subseteq> set ps"
proof -
  from assms obtain s1 where e: "append_each empty_system ps = Inr s1"
    and s: "s = s1\<lparr>provides_dict := append_to_x_dict provides (provides_dict s1) ps,
                   conflicts_dict := append_to_x_dict conflicts (conflicts_dict s1) ps\<rparr>"
    by (auto simp: System_def append_packages_def split: sum.splits)
  from append_each_dicts[OF e] have d: "all_packages_dict s1 = map (\<lambda>p. (name p, p)) ps"
    "provides_dict s1 = Map.empty" "conflicts_dict s1 = Map.empty"
    by (simp_all add: empty_system_def)
  show "dict_values (all_packages_dict s) = ps"
    using s d by (simp add: dict_values_def o_def)
  show "provides_dict s k = Some l \<Longrightarrow> set l \<subseteq> set ps"
    using s d append_to_x_dict_lists[of provides Map.empty ps k l] by simp
  show "conflicts_dict s k = Some l \<Longrightarrow> set l \<subseteq> set ps"
    using s d append_to_x_dict_lists[of conflicts Map.empty ps k l] by simp
qed

lemma System_packages:
  assumes "System ps = Inr s"
  shows "system_packages s \<subseteq> set ps"
proof
  fix p
  assume "p \<in> system_packages s"
  then consider "p \<in> set (dict_values (all_packages_dict s))"
    | k l where "provides_dict s k = Some l" "p \<in> set l"
    by (auto simp: system_packages_def ran_def)
  then show "p \<in> set ps"
  proof cases
    case 1
    then show ?thesis using System_dicts(1)[OF assms] by simp
  next
    case 2
    then show ?thesis using System_dicts(2)[OF assms] by blast
  qed
qed

lemma conflicting_with_own_subset:
  "set (foldl (conflicting_with_own vc s) rl cs) \<subseteq> set rl \<union> set (dict_values (all_packages_dict s))"
proof (induction cs arbitrary: rl)
  case Nil
  then show ?case by simp
next
  case (Cons c cs)
  have "set (conflicting_with_own vc s rl c) \<subseteq> set rl \<union> set (dict_values (all_packages_dict s))"
  proof -
    obtain cn cc cv where sp: "split_name_with_versioning c = (cn, cc, cv)"
      by (cases "split_name_with_versioning c")
    show ?thesis
    proof (cases "map_of (all_packages_dict s) cn")
      case None
      then show ?thesis using sp by (simp add: conflicting_with_own_def)
    next
      case (Some q)
      then have "q \<in> set (dict_values (all_packages_dict s))" by (rule map_of_in_values)
      then show ?thesis using sp Some by (auto simp: conflicting_with_own_def)
    qed
  qed
  then show ?case using Cons.IH[of "conflicting_with_own vc s rl c"] by auto
qed

lemma conflicting_with_theirs_subset:
  "set (foldl (conflicting_with_theirs vc nm ver q) rl cs) \<subseteq> insert q (set rl)"
proof (induction cs arbitrary: rl)
  case Nil
  then show ?case by auto
next
  case (Cons c cs)
  have "set (conflicting_with_theirs vc nm ver q rl c) \<subseteq> insert q (set rl)"
    by (auto simp: conflicting_with_theirs_def split: prod.splits if_splits)
  then show ?case using Cons.IH[of "conflicting_with_theirs vc nm ver q rl c"] by auto
qed

lemma conflicting_with_package_subset:
  "set (foldl (conflicting_with_package vc nm ver) rl qs) \<subseteq> set rl \<union> set qs"
proof (induction qs arbitrary: rl)
  case Nil
  then show ?case by simp
next
  case (Cons q qs)
  have "set (conflicting_with_package vc nm ver rl q) \<subseteq> insert q (set rl)"
    using conflicting_with_theirs_subset by (simp add: conflicting_with_package_def) blast
  then show ?case using Cons.IH[of "conflicting_with_package vc nm ver rl q"] by auto
qed

lemma conflicting_with_subset:
  assumes "System ps = Inr s"
  shows "set (conflicting_with vc s p) \<subseteq> set ps"
proof -
  define rl0 where "rl0 = (case map_of (all_packages_dict s) (name p) of None \<Rightarrow> []
      | Some q \<Rightarrow> if version p \<noteq> version q then [q] else [])"
  define rl1 where "rl1 = foldl (conflicting_with_own vc s) rl0 (conflicts p)"
  have v: "dict_values (all_packages_dict s) = ps" using System_dicts(1)[OF assms] .
  have r0: "set rl0 \<subseteq> set ps"
  proof (cases "map_of (all_packages_dict s) (name p)")
    case None
    then show ?thesis by (simp add: rl0_def)
  next
    case (Some q)
    then have "q \<in> set (dict_values (all_packages_dict s))" by (rule map_of_in_values)
    then have "q \<in> set ps" by (simp only: v)
    then show ?thesis using Some by (auto simp: rl0_def)
  qed
  have "set rl1 \<subseteq> set rl0 \<union> set (dict_values (all_packages_dict s))"
    unfolding rl1_def by (rule conflicting_with_own_subset)
  then have r1: "set rl1 \<subseteq> set ps" using r0 by (simp only: v) blast
  have eq: "conflicting_with vc s p = (case conflicts_dict s (name p) of None \<Rightarrow> rl1
      | Some qs \<Rightarrow> foldl (conflicting_with_package vc (name p) (version p)) rl1 qs)"
    unfolding conflicting_with_def rl0_def rl1_def Let_def ..
  show ?thesis
  proof (cases "conflicts_dict s (name p)")
    case None
    then show ?thesis using r1 eq by simp
  next
    case (Some qs)
    then have "set qs \<subseteq> set ps" using System_dicts(3)[OF assms] by blast
    moreover have "set (foldl (conflicting_with_package vc (name p) (version p)) rl1 qs) \<subseteq> set rl1 \<union> set qs"
      by (rule conflicting_with_package_subset)
    ultimately show ?thesis using r1 eq Some by auto
  qed
qed

subsection \<open>Termination: enough fuel\<close>

lemma ofold_progress:
  assumes "P s"
    and "\<And>x s. x \<in> set xs \<Longrightarrow> P s \<Longrightarrow> f x s \<noteq> OutOfFuel"
    and "\<And>x s s'. x \<in> set xs \<Longrightarrow> P s \<Longrightarrow> f x s = Returned s' \<Longrightarrow> P s'"
  shows "ofold f xs s \<noteq> OutOfFuel"
  using assms
proof (induction xs arbitrary: s)
  case Nil
  then show ?case by simp
next
  case (Cons x xs)
  show ?case
  proof (cases "f x s")
    case OutOfFuel
    then show ?thesis using Cons.prems(1,2) by auto
  next
    case (Raised e)
    then show ?thesis by simp
  next
    case (Returned s')
    have "P s'" using Cons.prems(3)[of x s s'] Cons.prems(1) Returned by simp
    have "ofold f xs s' \<noteq> OutOfFuel"
    proof (rule Cons.IH[OF \<open>P s'\<close>])
      show "\<And>y t. y \<in> set xs \<Longrightarrow> P t \<Longrightarrow> f y t \<noteq> OutOfFuel"
        using Cons.prems(2) by simp
      show "\<And>y t t'. y \<in> set xs \<Longrightarrow> P t \<Longrightarrow> f y t = Returned t' \<Longrightarrow> P t'"
        using Cons.prems(3) by (meson list.set_intros(2))
    qed
    then show ?thesis using Returned by simp
  qed
qed

text \<open>\<^verbatim>\<open>visited_packages\<close> only grows.\<close>

lemma visited_grows:
  assumes "solutions_for_dep_problem n vc inst up ouf deep self sol found = Returned r"
    and "s \<in> set (fst r)"
  shows "set (visited_packages sol) \<subseteq> set (visited_packages s)"
proof -
  have "(\<forall>s \<in> set (fst r). set (visited_packages sol) \<subseteq> set (visited_packages s)) \<and> True"
    by (rule solver_inv[where U = "\<lambda>p. True" and J = "\<lambda>f. True"
          and I = "\<lambda>s. set (visited_packages sol) \<subseteq> set (visited_packages s)", OF _ _ _ _ _ _ _ _ _ _ _ _ assms(1)])
       (auto simp: mark_not_provided_def visit_def)
  then show ?thesis using assms(2) by blast
qed

lemma pkg_in_key: "pkg_in p xs \<longleftrightarrow> pkg_key p \<in> pkg_key ` set xs"
  by (auto simp: pkg_in_def pkg_eq_def pkg_key_def list_ex_iff)

lemma unvisited_mono:
  assumes "finite (system_packages up)"
    and "set (visited_packages sol) \<subseteq> set (visited_packages s)"
  shows "unvisited up s \<le> unvisited up sol"
  unfolding unvisited_def
  by (rule card_mono) (use assms in auto)

lemma unvisited_visit:
  assumes fin: "finite (system_packages up)" and u: "self \<in> system_packages up"
    and nv: "\<not> pkg_in self (visited_packages sol)"
  shows "unvisited up (visit self sol cs) < unvisited up sol"
proof -
  have "pkg_key ` system_packages up - pkg_key ` set (visited_packages (visit self sol cs))
      \<subset> pkg_key ` system_packages up - pkg_key ` set (visited_packages sol)"
    using u nv by (auto simp: visit_def pkg_in_key)
  then show ?thesis unfolding unvisited_def using fin by (intro psubset_card_mono) auto
qed

lemma unvisited_visit_le:
  assumes fin: "finite (system_packages up)"
  shows "unvisited up (visit self sol cs) \<le> unvisited up sol"
  by (rule unvisited_mono[OF fin]) (auto simp: visit_def)


lemma expand_one_progress:
  "rec q solution (snd st) \<noteq> OutOfFuel \<Longrightarrow> expand_one rec solution q st \<noteq> OutOfFuel"
  by (simp add: expand_one_def split: outcome.splits)

lemma dep_step_progress:
  assumes rec: "\<And>q sol found. q \<in> set (provided_by vc up dep) \<Longrightarrow> I sol \<Longrightarrow> rec q sol found \<noteq> OutOfFuel"
    and mark: "\<And>s. I s \<Longrightarrow> I (mark_not_provided dep s)"
    and name: "\<And>s. I s \<Longrightarrow> I (s\<lparr>visited_names := insert dep (visited_names s)\<rparr>)"
    and st: "\<forall>s \<in> set (fst st). I s"
  shows "dep_step rec vc inst up ouf deep self dep st \<noteq> OutOfFuel"
proof (cases "ouf \<and> provided_by vc inst dep \<noteq> []")
  case True
  then show ?thesis by (simp add: dep_step_def)
next
  case False
  let ?cur = "if provided_by vc up dep = [] then map (mark_not_provided dep) (fst st) else fst st"
  let ?found = "if provided_by vc up dep = []
                  then problems_add (DepAlgoNotProvided dep self) (snd st) else snd st"
  let ?chk = "check_in_solution vc dep (filter (\<lambda>s. dep \<notin> visited_names s) ?cur)
      (filter (\<lambda>s. dep \<in> visited_names s) ?cur, [])"
  have cur: "\<forall>s \<in> set ?cur. I s" using st mark by auto
  show ?thesis
  proof (cases ?chk)
    case (Inl e)
    then show ?thesis using False by (simp add: dep_step_def Let_def)
  next
    case (Inr acc)
    obtain fin nf where acc: "acc = (fin, nf)" by (cases acc)
    have "\<forall>s \<in> set (fst (fin, nf)) \<union> set (snd (fin, nf)). I s"
      by (rule check_in_solution_inv[OF Inr[unfolded acc], where I = I]) (use cur name in auto)
    then have nf: "\<forall>s \<in> set nf. I s" by simp
    have "ofold (\<lambda>solution. ofold (expand_one rec solution)
                (relevant_providers deep dep (provided_by vc up dep))) nf (fin, ?found) \<noteq> OutOfFuel"
    proof (rule ofold_progress[where P = "\<lambda>t. True"])
      fix x and t :: search_state
      assume x: "x \<in> set nf"
      show "ofold (expand_one rec x) (relevant_providers deep dep (provided_by vc up dep)) t \<noteq> OutOfFuel"
      proof (rule ofold_progress[where P = "\<lambda>t. True"])
        fix q and u :: search_state
        assume "q \<in> set (relevant_providers deep dep (provided_by vc up dep))"
        then have "q \<in> set (provided_by vc up dep)" using relevant_providers_subset by blast
        then have "rec q x (snd u) \<noteq> OutOfFuel" using rec nf x by blast
        then show "expand_one rec x q u \<noteq> OutOfFuel" by (rule expand_one_progress)
      qed simp_all
    qed simp_all
    then show ?thesis using False Inr acc by (simp add: dep_step_def Let_def)
  qed
qed

lemma enough_fuel:
  assumes fin: "finite (system_packages up)"
  shows "(self \<in> system_packages up \<and> unvisited up sol < n) \<or> unvisited up sol + 1 < n \<Longrightarrow>
     solutions_for_dep_problem n vc inst up ouf deep self sol found \<noteq> OutOfFuel"
proof (induction n arbitrary: self sol found)
  case 0
  then show ?case by simp
next
  case (Suc n)
  let ?rec = "solutions_for_dep_problem n vc inst up ouf deep"
  define I where "I = (\<lambda>s. unvisited up s < n)"
  have rec_ok: "?rec q s f \<noteq> OutOfFuel" if "q \<in> set (provided_by vc up dep)" "I s" for q s f dep
    using Suc.IH[of q s f] that provided_by_subset[of vc up dep] by (auto simp: I_def)
  have rec_inv: "(\<forall>s \<in> set (fst r). I s) \<and> True"
    if "I s0" "?rec q s0 f = Returned r" for q s0 f r
    using visited_grows[OF that(2)] unvisited_mono[OF fin] that(1) unfolding I_def
    by (meson le_less_trans)
  have mark: "\<And>dep s. I s \<Longrightarrow> I (mark_not_provided dep s)"
    by (simp add: I_def unvisited_def mark_not_provided_def)
  have name: "\<And>dep s. I s \<Longrightarrow> I (s\<lparr>visited_names := insert dep (visited_names s)\<rparr>)"
    by (simp add: I_def unvisited_def)
  show ?case
  proof (cases "pkg_in self (packages_in_solution sol) \<or> pkg_in self (visited_packages sol)")
    case True
    then show ?thesis by (auto simp: expand_body_def)
  next
    case False
    show ?thesis
    proof (cases "System (visited_packages sol)")
      case (Inl e)
      then show ?thesis using False by (simp add: expand_body_def)
    next
      case (Inr cs)
      let ?C = "conflicting_with vc cs self"
      have i1: "I (visit self sol ?C)"
        using Suc.prems unvisited_visit[OF fin, of self sol ?C] unvisited_visit_le[OF fin, of self sol ?C] False
        by (auto simp: I_def)
      have "ofold (dep_step ?rec vc inst up ouf deep self) (relevant_deps self)
          ([visit self sol ?C], record_conflict self sol ?C found) \<noteq> OutOfFuel"
      proof (rule ofold_progress[where P = "\<lambda>st. (\<forall>s \<in> set (fst st). I s) \<and> True"])
        show "(\<forall>s \<in> set (fst ([visit self sol ?C], record_conflict self sol ?C found)). I s) \<and> True"
          using i1 by simp
      next
        fix dep and st :: search_state
        assume "(\<forall>s \<in> set (fst st). I s) \<and> True"
        then have st: "\<forall>s \<in> set (fst st). I s" by simp
        show "dep_step ?rec vc inst up ouf deep self dep st \<noteq> OutOfFuel"
          by (rule dep_step_progress[where I = I, OF rec_ok mark name st])
      next
        fix dep and st st' :: search_state
        assume st: "(\<forall>s \<in> set (fst st). I s) \<and> True"
          and d: "dep_step ?rec vc inst up ouf deep self dep st = Returned st'"
        show "(\<forall>s \<in> set (fst st'). I s) \<and> True"
          by (rule dep_step_inv[where I = I and J = "\<lambda>f. True" and U = "\<lambda>q. True",
                OF rec_inv _ mark name _ st d]) simp_all
      qed
      then show ?thesis using False Inr by (simp add: expand_body_def Let_def split: outcome.splits)
    qed
  qed
qed

lemma unvisited_le: "finite (system_packages up) \<Longrightarrow> unvisited up sol \<le> card (system_packages up)"
  unfolding unvisited_def
  by (rule order_trans[OF card_mono[of "pkg_key ` system_packages up"] card_image_le]) auto

lemma solve_pass_progress:
  assumes fin: "finite (system_packages up)" and n: "card (system_packages up) + 1 < n"
  shows "solve_pass (solutions_for_dep_problem n vc inst up ouf deep) packages \<noteq> OutOfFuel"
proof -
  have rec: "solutions_for_dep_problem n vc inst up ouf deep p s f \<noteq> OutOfFuel" for p s f
    by (rule enough_fuel[OF fin]) (use unvisited_le[OF fin, of s] n in simp)
  show ?thesis unfolding solve_pass_def
  proof (rule ofold_progress[where P = "\<lambda>t. True"])
    fix p and st :: search_state
    show "solve_package (solutions_for_dep_problem n vc inst up ouf deep) p st \<noteq> OutOfFuel"
      unfolding solve_package_def
      by (rule ofold_progress[where P = "\<lambda>t. True"]) (simp_all add: expand_one_progress rec)
  qed simp_all
qed


lemma set_pkg_set_add: "set (pkg_set_add p xs) \<subseteq> insert p (set xs)"
  by (auto simp: pkg_set_add_def)

lemma set_foldl_pkg_set_add:
  "set (foldl (\<lambda>acc p. pkg_set_add p acc) acc xs) \<subseteq> set acc \<union> set xs"
proof (induction xs arbitrary: acc)
  case Nil
  then show ?case by simp
next
  case (Cons x xs)
  show ?case using Cons.IH[of "pkg_set_add x acc"] set_pkg_set_add[of x acc] by auto
qed

lemma set_pkg_set: "set (pkg_set xs) \<subseteq> set xs"
  using set_foldl_pkg_set_add[of "[]" xs] by (simp add: pkg_set_def)

text \<open>Every package named in a problem is a requested package or an upstream one.\<close>

lemma solver_packages:
  assumes "self \<in> W" and "set (visited_packages sol) \<subseteq> W"
    and "\<forall>prob \<in> set found. set (get_relevant_packages prob) \<subseteq> W"
    and up: "system_packages up \<subseteq> W"
    and run: "solutions_for_dep_problem n vc inst up ouf deep self sol found = Returned r"
  shows "(\<forall>s \<in> set (fst r). set (visited_packages s) \<subseteq> W) \<and>
         (\<forall>prob \<in> set (snd r). set (get_relevant_packages prob) \<subseteq> W)"
proof (rule solver_inv[where U = "\<lambda>p. p \<in> W" and I = "\<lambda>s. set (visited_packages s) \<subseteq> W"
      and J = "\<lambda>f. \<forall>prob \<in> set f. set (get_relevant_packages prob) \<subseteq> W",
      OF _ _ _ _ _ _ _ _ _ assms(1) assms(2) assms(3) run])
  show "\<And>dep q. q \<in> set (provided_by vc up dep) \<Longrightarrow> q \<in> W"
    using provided_by_subset up by blast
  show "\<And>dep s. set (visited_packages s) \<subseteq> W \<Longrightarrow> set (visited_packages (mark_not_provided dep s)) \<subseteq> W"
    by (simp add: mark_not_provided_def)
  show "\<And>self (sol :: DepAlgoSolution) cs. self \<in> W \<Longrightarrow> set (visited_packages sol) \<subseteq> W \<Longrightarrow>
      set (visited_packages (visit self sol cs)) \<subseteq> W"
    by (simp add: visit_def)
  show "\<And>dep self found. self \<in> W \<Longrightarrow> \<forall>prob \<in> set found. set (get_relevant_packages prob) \<subseteq> W \<Longrightarrow>
      \<forall>prob \<in> set (problems_add (DepAlgoNotProvided dep self) found). set (get_relevant_packages prob) \<subseteq> W"
    using set_problems_add by fastforce
  show "\<And>self (sol :: DepAlgoSolution) found. self \<in> W \<Longrightarrow> set (visited_packages sol) \<subseteq> W \<Longrightarrow>
      \<forall>prob \<in> set found. set (get_relevant_packages prob) \<subseteq> W \<Longrightarrow>
      pkg_in self (visited_packages sol) \<Longrightarrow> type_of self \<noteq> REPO_PACKAGE \<Longrightarrow>
      \<forall>prob \<in> set (record_cycle self sol found). set (get_relevant_packages prob) \<subseteq> W"
  proof -
    fix self and sol :: DepAlgoSolution and found
    assume a: "self \<in> W" "set (visited_packages sol) \<subseteq> W"
      "\<forall>prob \<in> set found. set (get_relevant_packages prob) \<subseteq> W"
    let ?c = "DepAlgoCycle (drop (pkg_index self (visited_packages sol)) (visited_packages sol) @ [self])"
    have "set (get_relevant_packages ?c) \<subseteq> W"
      using a(1,2) set_drop_subset[of "pkg_index self (visited_packages sol)" "visited_packages sol"]
      by auto
    then have "\<forall>prob \<in> set (problems_add ?c found). set (get_relevant_packages prob) \<subseteq> W"
      using a(3) set_problems_add[of ?c found] by blast
    then show "\<forall>prob \<in> set (record_cycle self sol found). set (get_relevant_packages prob) \<subseteq> W"
      using a(3) by (simp add: record_cycle_def Let_def)
  qed
  show "\<And>self (sol :: DepAlgoSolution) cs found. self \<in> W \<Longrightarrow> set (visited_packages sol) \<subseteq> W \<Longrightarrow>
      \<forall>prob \<in> set found. set (get_relevant_packages prob) \<subseteq> W \<Longrightarrow>
      System (visited_packages sol) = Inr cs \<Longrightarrow>
      \<forall>prob \<in> set (record_conflict self sol (conflicting_with vc cs self) found).
         set (get_relevant_packages prob) \<subseteq> W"
  proof -
    fix self and sol :: DepAlgoSolution and cs found
    assume a: "self \<in> W" "set (visited_packages sol) \<subseteq> W"
      "\<forall>prob \<in> set found. set (get_relevant_packages prob) \<subseteq> W"
      "System (visited_packages sol) = Inr cs"
    let ?C = "conflicting_with vc cs self"
    have "set ?C \<subseteq> W" using conflicting_with_subset[OF a(4)] a(2) by blast
    then have "set (pkg_set_add self (pkg_set ?C)) \<subseteq> W"
      using set_pkg_set_add[of self "pkg_set ?C"] set_pkg_set[of ?C] a(1) by blast
    then have "set (get_relevant_packages (new_conflict self sol ?C)) \<subseteq> W"
      by (simp add: new_conflict_def Let_def)
    then have "\<forall>prob \<in> set (problems_add (new_conflict self sol ?C) found).
        set (get_relevant_packages prob) \<subseteq> W"
      using a(3) set_problems_add[of "new_conflict self sol ?C" found] by blast
    then show "\<forall>prob \<in> set (record_conflict self sol ?C found). set (get_relevant_packages prob) \<subseteq> W"
      using a(3) by (simp add: record_conflict_def)
  qed
qed simp_all

lemma solve_pass_names:
  assumes up: "system_packages up \<subseteq> W" and req: "set packages \<subseteq> W"
    and run: "solve_pass (solutions_for_dep_problem n vc inst up ouf deep) packages = Returned st"
  shows "problem_names (snd st) \<subseteq> name ` W"
proof -
  let ?rec = "solutions_for_dep_problem n vc inst up ouf deep"
  define S where "S = (\<lambda>st :: search_state. (\<forall>s \<in> set (fst st). set (visited_packages s) \<subseteq> W) \<and>
      (\<forall>prob \<in> set (snd st). set (get_relevant_packages prob) \<subseteq> W))"
  have step: "S t'" if p: "p \<in> set packages" and t: "S t" and r: "solve_package ?rec p t = Returned t'"
    for p t t'
  proof (rule ofold_induct[OF r[unfolded solve_package_def], where P = S])
    show "S ([], snd t)" using t by (simp add: S_def)
  next
    fix x and u u' :: search_state
    assume x: "x \<in> set (fst t)" and u: "S u"
      and e: "expand_one ?rec x p u = Returned u'"
    from e obtain r where r: "?rec p x (snd u) = Returned r" and u': "u' = (fst u @ fst r, snd r)"
      by (rule expand_one_snd)
    have "(\<forall>s \<in> set (fst r). set (visited_packages s) \<subseteq> W) \<and>
         (\<forall>prob \<in> set (snd r). set (get_relevant_packages prob) \<subseteq> W)"
      by (rule solver_packages[OF _ _ _ up r]) (use p req x u t in \<open>auto simp: S_def\<close>)
    then show "S u'" using u u' by (auto simp: S_def)
  qed
  have "S st"
  proof (rule ofold_induct[OF run[unfolded solve_pass_def], where P = S])
    show "S ([empty_solution], [])" by (simp add: S_def empty_solution_def)
  next
    fix p and t t' :: search_state
    assume "p \<in> set packages" "S t" "solve_package ?rec p t = Returned t'"
    then show "S t'" by (rule step)
  qed
  then show ?thesis by (fastforce simp: S_def problem_names_def)
qed

lemma loop_progress:
  assumes fin: "finite (system_packages up)" and n: "card (system_packages up) + 1 < n"
  shows "card (name ` (set packages \<union> system_packages up) - deep) < k \<Longrightarrow>
     dep_solving_loop k n vc packages inst up ouf deep \<noteq> OutOfFuel"
proof (induction k arbitrary: deep)
  case 0
  then show ?case by simp
next
  case (Suc k)
  let ?N = "name ` (set packages \<union> system_packages up)"
  let ?pass = "solve_pass (solutions_for_dep_problem n vc inst up ouf deep) packages"
  have finN: "finite ?N" using fin by simp
  show ?case
  proof (cases ?pass)
    case OutOfFuel
    then show ?thesis using solve_pass_progress[OF fin n] by blast
  next
    case (Raised e)
    then show ?thesis by simp
  next
    case (Returned st)
    let ?deep1 = "deep \<union> problem_names (snd st)"
    show ?thesis
    proof (cases "filter is_valid (fst st) \<noteq> [] \<or> card ?deep1 = card deep")
      case True
      then show ?thesis using Returned by (auto simp: Let_def)
    next
      case False
      then have "?deep1 \<noteq> deep" by auto
      then obtain x where x: "x \<in> problem_names (snd st)" "x \<notin> deep" by blast
      have "problem_names (snd st) \<subseteq> ?N"
        by (rule solve_pass_names[OF _ _ Returned]) auto
      then have "x \<in> ?N - deep" "x \<notin> ?N - ?deep1" using x by auto
      then have "?N - ?deep1 \<subset> ?N - deep" by blast
      then have "card (?N - ?deep1) < card (?N - deep)"
        using finN by (intro psubset_card_mono) auto
      then have "card (?N - ?deep1) < k" using Suc.prems by simp
      from Suc.IH[OF this] show ?thesis using Returned False by (simp add: Let_def)
    qed
  qed
qed

lemma cycle_universe:
  "system_packages (system_of [aurA, aurB]) = {aurA, aurB} \<and> aurA \<noteq> aurB \<and> name aurA \<noteq> name aurB"
  by (simp add: system_packages_def system_eval dict_values_def aurA_def aurB_def)

lemma cycle_solving:
  "dep_solving (Suc (Suc (Suc 0))) (Suc (Suc (Suc (Suc 0)))) no_version [aurA] (system_of [])
     (system_of [aurA, aurB]) True = Returned ([], [DepAlgoCycle [aurA, aurB, aurA]])"
  by (simp add: dep_solving_def solver_eval system_eval provided_by_eval problem_names_def
      aurA_def aurB_def)

section \<open>Properties\<close>

subsection \<open>\<^verbatim>\<open>relevant_deps\<close>\<close>




subsection \<open>\<^verbatim>\<open>provided_by\<close>\<close>

text \<open>
  C4: the claim holds of the members of the returned list, but not of its being free
  of repetitions. The test \<^verbatim>\<open>if package in return_list: continue\<close> is made once per
  package, before the loop over its provides, and that loop has no \<^verbatim>\<open>break\<close>: a
  package with two provides of the dep's name is appended twice.
\<close>

theorem provided_by_duplicate:
  "(case System [pkg ''P'' ''1'' [] [] [''x=1'', ''x=2''] AUR_PACKAGE] of
      Inl e \<Rightarrow> []
    | Inr s \<Rightarrow> provided_by vc s ''x'') =
   [pkg ''P'' ''1'' [] [] [''x=1'', ''x=2''] AUR_PACKAGE,
    pkg ''P'' ''1'' [] [] [''x=1'', ''x=2''] AUR_PACKAGE]"
  by (simp add: system_eval provided_by_eval)

subsection \<open>Cycle detection\<close>

text \<open>
  C10: every \<^verbatim>\<open>DepAlgoCycle\<close> that an expansion leaves in \<^verbatim>\<open>found_problems\<close> and
  that was not there before is a closed loop: its list has at least two members and
  its first member equals its last (under \<^verbatim>\<open>Package.__eq__\<close>).
\<close>

theorem cycle_is_closed_loop:
  "solutions_for_dep_problem n vc inst up ouf deep self sol found = Returned r \<Longrightarrow>
   DepAlgoCycle c \<in> set (snd r) \<Longrightarrow>
   DepAlgoCycle c \<in> set found \<or> (2 \<le> length c \<and> pkg_eq (hd c) (last c))"
  using solver_new_cycles revisit_cycle_shape by blast

theorem cycle_is_closed_loop_witness:
  "solutions_for_dep_problem (Suc (Suc (Suc 0))) no_version (system_of []) (system_of [aurA, aurB])
       True {} aurA empty_solution [] = Returned ([], [DepAlgoCycle [aurA, aurB, aurA]]) \<and>
   DepAlgoCycle [aurA, aurB, aurA] \<notin> set [] \<and>
   2 \<le> length [aurA, aurB, aurA] \<and> pkg_eq (hd [aurA, aurB, aurA]) (last [aurA, aurB, aurA])"
proof -
  have run: "solutions_for_dep_problem (Suc (Suc (Suc 0))) no_version (system_of [])
      (system_of [aurA, aurB]) True {} aurA empty_solution [] = Returned ([], [DepAlgoCycle [aurA, aurB, aurA]])"
    by (simp add: solver_eval system_eval provided_by_eval aurA_def aurB_def)
  have "DepAlgoCycle [aurA, aurB, aurA] \<in> set (snd ([], [DepAlgoCycle [aurA, aurB, aurA]]))"
    by simp
  from cycle_is_closed_loop[OF run this] show ?thesis using run by simp
qed

text \<open>
  C6: a package met again in \<^verbatim>\<open>visited_packages\<close> is returned with the solution
  unchanged, and nothing recorded, when it is a repository package; when it is not
  (and not yet in the solution) the expansion returns no solution and records the
  cycle. So every cycle an expansion records holds a package that is not a repository
  package: a cycle of repository packages alone is never recorded. The witness ends
  with two repository packages that depend on each other: they are solved, with no
  problem found.
\<close>

theorem repo_revisit_no_cycle:
  "(pkg_in self (visited_packages sol) \<and> type_of self = REPO_PACKAGE \<longrightarrow>
      solutions_for_dep_problem (Suc n) vc inst up ouf deep self sol found = Returned ([sol], found)) \<and>
   (pkg_in self (visited_packages sol) \<and> \<not> pkg_in self (packages_in_solution sol) \<and>
    type_of self \<noteq> REPO_PACKAGE \<longrightarrow>
      solutions_for_dep_problem (Suc n) vc inst up ouf deep self sol found =
        Returned ([], record_cycle self sol found)) \<and>
   (solutions_for_dep_problem m vc inst up ouf deep self sol found = Returned r \<and>
    DepAlgoCycle c \<in> set (snd r) \<and> DepAlgoCycle c \<notin> set found \<longrightarrow>
      (\<exists>p \<in> set c. type_of p \<noteq> REPO_PACKAGE))"
proof (intro conjI impI)
  assume "pkg_in self (visited_packages sol) \<and> type_of self = REPO_PACKAGE"
  then show "solutions_for_dep_problem (Suc n) vc inst up ouf deep self sol found = Returned ([sol], found)"
    by (simp add: expand_body_def)
next
  assume "pkg_in self (visited_packages sol) \<and> \<not> pkg_in self (packages_in_solution sol) \<and>
    type_of self \<noteq> REPO_PACKAGE"
  then show "solutions_for_dep_problem (Suc n) vc inst up ouf deep self sol found =
        Returned ([], record_cycle self sol found)"
    by (simp add: expand_body_def)
next
  assume a: "solutions_for_dep_problem m vc inst up ouf deep self sol found = Returned r \<and>
    DepAlgoCycle c \<in> set (snd r) \<and> DepAlgoCycle c \<notin> set found"
  then have "revisit_cycle c" using solver_new_cycles by blast
  from revisit_cycle_shape[OF this] have "2 \<le> length c" and "type_of (last c) \<noteq> REPO_PACKAGE"
    by auto
  moreover from \<open>2 \<le> length c\<close> have "last c \<in> set c" by (intro last_in_set) auto
  ultimately show "\<exists>p \<in> set c. type_of p \<noteq> REPO_PACKAGE" by blast
qed

theorem repo_revisit_no_cycle_witness:
  "pkg_in repoA (visited_packages (empty_solution\<lparr>visited_packages := [repoA, repoB]\<rparr>)) \<and>
   type_of repoA = REPO_PACKAGE \<and>
   solutions_for_dep_problem (Suc 0) no_version (system_of []) (system_of [repoA, repoB]) True {}
       repoA (empty_solution\<lparr>visited_packages := [repoA, repoB]\<rparr>) [] =
     Returned ([empty_solution\<lparr>visited_packages := [repoA, repoB]\<rparr>], []) \<and>
   pkg_in aurA (visited_packages (empty_solution\<lparr>visited_packages := [aurA, aurB]\<rparr>)) \<and>
   \<not> pkg_in aurA (packages_in_solution (empty_solution\<lparr>visited_packages := [aurA, aurB]\<rparr>)) \<and>
   type_of aurA \<noteq> REPO_PACKAGE \<and>
   solutions_for_dep_problem (Suc 0) no_version (system_of []) (system_of [aurA, aurB]) True {}
       aurA (empty_solution\<lparr>visited_packages := [aurA, aurB]\<rparr>) [] =
     Returned ([], [DepAlgoCycle [aurA, aurB, aurA]]) \<and>
   (\<exists>p \<in> set [aurA, aurB, aurA]. type_of p \<noteq> REPO_PACKAGE) \<and>
   solve_pass (solutions_for_dep_problem (Suc (Suc (Suc 0))) no_version (system_of [])
       (system_of [repoA, repoB]) True {}) [repoA] =
     Returned ([\<lparr>packages_in_solution = [repoB, repoA], visited_packages = [repoA, repoB],
                  visited_names = {''A'', ''B''}, is_valid = True\<rparr>], [])"
proof -
  have a: "pkg_in repoA (visited_packages (empty_solution\<lparr>visited_packages := [repoA, repoB]\<rparr>)) \<and>
      type_of repoA = REPO_PACKAGE"
    by (simp add: pkg_in_def pkg_eq_def repoA_def repoB_def pkg_def)
  have b: "pkg_in aurA (visited_packages (empty_solution\<lparr>visited_packages := [aurA, aurB]\<rparr>)) \<and>
      \<not> pkg_in aurA (packages_in_solution (empty_solution\<lparr>visited_packages := [aurA, aurB]\<rparr>)) \<and>
      type_of aurA \<noteq> REPO_PACKAGE"
    by (simp add: pkg_in_def pkg_eq_def aurA_def aurB_def pkg_def empty_solution_def)
  have c: "record_cycle aurA (empty_solution\<lparr>visited_packages := [aurA, aurB]\<rparr>) [] =
      [DepAlgoCycle [aurA, aurB, aurA]]"
    by (simp add: solver_eval pkg_eq_def aurA_def aurB_def pkg_def)
  have d: "solve_pass (solutions_for_dep_problem (Suc (Suc (Suc 0))) no_version (system_of [])
       (system_of [repoA, repoB]) True {}) [repoA] =
     Returned ([\<lparr>packages_in_solution = [repoB, repoA], visited_packages = [repoA, repoB],
                  visited_names = {''A'', ''B''}, is_valid = True\<rparr>], [])"
    by (simp add: solver_eval system_eval provided_by_eval repoA_def repoB_def insert_commute)
  have e: "\<exists>p \<in> set [aurA, aurB, aurA]. type_of p \<noteq> REPO_PACKAGE"
    by (simp add: aurA_def pkg_def)
  from repo_revisit_no_cycle[of repoA "empty_solution\<lparr>visited_packages := [repoA, repoB]\<rparr>" 0
      no_version "system_of []" "system_of [repoA, repoB]" True "{}" "[]"]
    repo_revisit_no_cycle[of aurA "empty_solution\<lparr>visited_packages := [aurA, aurB]\<rparr>" 0
      no_version "system_of []" "system_of [aurA, aurB]" True "{}" "[]" "Suc 0"
      "([], [DepAlgoCycle [aurA, aurB, aurA]])" "[aurA, aurB, aurA]"]
    a b c d e
  show ?thesis by simp
qed

subsection \<open>Problems after a successful search\<close>




subsection \<open>Conflicts\<close>





subsection \<open>Termination\<close>

text \<open>
  C3: for an upstream system that holds finitely many packages, \<^verbatim>\<open>dep_solving\<close>
  terminates (it returns or raises). Every expansion stays within a recursion depth of
  the number of upstream packages plus two, since each nested expansion of a package
  not yet visited adds an upstream package to \<^verbatim>\<open>visited_packages\<close>; and the loop makes
  at most one pass more than there are names of requested and upstream packages, since
  a pass that does not break adds one of these names to \<^verbatim>\<open>deps_to_deep_check\<close>.
\<close>

theorem dep_solving_terminates:
  assumes "finite (system_packages upstream_system)"
    and "card (system_packages upstream_system) + 1 < n"
    and "card (name ` (set packages \<union> system_packages upstream_system)) < k"
  shows "dep_solving k n vc packages installed_system upstream_system only_unfulfilled_deps \<noteq> OutOfFuel"
proof -
  have "dep_solving_loop k n vc packages installed_system upstream_system only_unfulfilled_deps {}
      \<noteq> OutOfFuel"
    by (rule loop_progress[OF assms(1,2)]) (use assms(3) in simp)
  then show ?thesis by (simp add: dep_solving_def split: outcome.splits)
qed


theorem dep_solving_terminates_witness:
  "finite (system_packages (system_of [aurA, aurB])) \<and>
   card (system_packages (system_of [aurA, aurB])) + 1 < Suc (Suc (Suc (Suc 0))) \<and>
   card (name ` (set [aurA] \<union> system_packages (system_of [aurA, aurB]))) < Suc (Suc (Suc 0)) \<and>
   dep_solving (Suc (Suc (Suc 0))) (Suc (Suc (Suc (Suc 0)))) no_version [aurA] (system_of [])
     (system_of [aurA, aurB]) True \<noteq> OutOfFuel \<and>
   dep_solving (Suc (Suc (Suc 0))) (Suc (Suc (Suc (Suc 0)))) no_version [aurA] (system_of [])
     (system_of [aurA, aurB]) True = Returned ([], [DepAlgoCycle [aurA, aurB, aurA]])"
proof -
  have a: "finite (system_packages (system_of [aurA, aurB]))"
    using cycle_universe by simp
  have b: "card (system_packages (system_of [aurA, aurB])) + 1 < Suc (Suc (Suc (Suc 0)))"
    using cycle_universe by simp
  have "name ` (set [aurA] \<union> system_packages (system_of [aurA, aurB])) = {name aurA, name aurB}"
    using cycle_universe by auto
  then have c: "card (name ` (set [aurA] \<union> system_packages (system_of [aurA, aurB]))) < Suc (Suc (Suc 0))"
    using cycle_universe by simp
  from dep_solving_terminates[OF a b c, of no_version "system_of []" True] a b c cycle_solving
  show ?thesis by simp
qed

end
